theory Spec2Isabelle
  imports Complex_Main
begin

section \<open>Mel-spectrogram front end (audio_processing.h, audio_processing.cpp)\<close>

text \<open>
  The C++ code computes on single-precision floats. Here a float is a real number and
  every operation is exact: rounding, infinities and NaN are outside the model. A
  division whose divisor is zero would produce an infinity or a NaN in the code, so the
  one place where the divisor is not a constant and not guarded by a test (the filter
  weights) returns a \<open>fault\<close> instead. Integers are far from the 32-bit limits in every
  computation below and are unbounded here. The library functions \<open>cosf\<close>, \<open>sinf\<close>,
  \<open>sqrtf\<close>, \<open>log10f\<close>, \<open>powf\<close> and \<open>roundf\<close> are the mathematical functions, and \<open>PI\<close>
  (a macro of Arduino.h) is \<open>pi\<close>.
\<close>

subsection \<open>Constants of audio_processing.h\<close>

definition SAMPLE_RATE :: nat where "SAMPLE_RATE = 16000"
definition FFT_SIZE :: nat where "FFT_SIZE = 512"
definition NUM_MELS :: nat where "NUM_MELS = 40"
definition NUM_FRAMES :: nat where "NUM_FRAMES = 49"
definition HOP_LENGTH :: nat where "HOP_LENGTH = 160"
definition BUFFER_SIZE :: nat where "BUFFER_SIZE = NUM_FRAMES * HOP_LENGTH + FFT_SIZE"
definition MIN_FREQ :: nat where "MIN_FREQ = 20"
definition MAX_FREQ :: nat where "MAX_FREQ = 8000"

subsection \<open>applyHannWindow\<close>

definition applyHannWindow :: "real list \<Rightarrow> nat \<Rightarrow> real list" where
  "applyHannWindow buffer sz =
     fold (\<lambda>i b. b[i := b ! i * (0.5 * (1 - cos (2 * pi * real i / (real sz - 1))))])
       [0..<sz] buffer"

subsection \<open>computeFFT\<close>

text \<open>
  The working arrays \<open>real[size]\<close> and \<open>imag[size]\<close> are lists of length \<open>size\<close>; the state
  of the innermost loop is these two arrays and the running twiddle factor
  \<open>(w_real, w_imag)\<close>. One iteration of the loop over \<open>j\<close>:
\<close>

fun butterfly ::
  "nat \<Rightarrow> nat \<Rightarrow> real \<Rightarrow> real \<Rightarrow> nat \<Rightarrow> real list \<times> real list \<times> real \<times> real
     \<Rightarrow> real list \<times> real list \<times> real \<times> real" where
  "butterfly m k wm_real wm_imag j (real_arr, imag_arr, w_real, w_imag) =
     (let t_real = w_real * real_arr ! (k + j + m div 2) - w_imag * imag_arr ! (k + j + m div 2);
          t_imag = w_real * imag_arr ! (k + j + m div 2) + w_imag * real_arr ! (k + j + m div 2);
          real1 = real_arr[k + j + m div 2 := real_arr ! (k + j) - t_real];
          imag1 = imag_arr[k + j + m div 2 := imag_arr ! (k + j) - t_imag];
          real2 = real1[k + j := real1 ! (k + j) + t_real];
          imag2 = imag1[k + j := imag1 ! (k + j) + t_imag];
          w_next_real = w_real * wm_real - w_imag * wm_imag;
          w_next_imag = w_real * wm_imag + w_imag * wm_real
      in (real2, imag2, w_next_real, w_next_imag))"

text \<open>The loop \<open>for (j = 0; j < m/2; j++)\<close> of one block, started with \<open>w = 1\<close>.\<close>

definition fft_block ::
  "nat \<Rightarrow> nat \<Rightarrow> real \<Rightarrow> real \<Rightarrow> real list \<times> real list \<Rightarrow> real list \<times> real list" where
  "fft_block m k wm_real wm_imag a =
     (case fold (butterfly m k wm_real wm_imag) [0..<m div 2] (fst a, snd a, 1, 0) of
        (real_arr, imag_arr, w_real, w_imag) \<Rightarrow> (real_arr, imag_arr))"

text \<open>The loop \<open>for (k = 0; k < size; k += m)\<close> with \<open>m = 1 << stage\<close>.\<close>

function fft_blocks ::
  "nat \<Rightarrow> nat \<Rightarrow> real \<Rightarrow> real \<Rightarrow> nat \<Rightarrow> real list \<times> real list \<Rightarrow> real list \<times> real list" where
  "fft_blocks stage sz wm_real wm_imag k a =
     (if k < sz
      then fft_blocks stage sz wm_real wm_imag (k + 2 ^ stage)
             (fft_block (2 ^ stage) k wm_real wm_imag a)
      else a)"
  by pat_completeness auto
termination
proof (relation "measure (\<lambda>(stage, sz, wm_real, wm_imag, k, a). sz - k)")
  show "wf (measure (\<lambda>(stage, sz, wm_real, wm_imag, k, a). sz - k))"
    by simp
next
  fix stage sz k :: nat and wm_real wm_imag :: real and a :: "real list \<times> real list"
  assume "k < sz"
  moreover have "0 < (2::nat) ^ stage"
    by simp
  ultimately have "sz - (k + 2 ^ stage) < sz - k"
    by linarith
  then show "((stage, sz, wm_real, wm_imag, k + 2 ^ stage, fft_block (2 ^ stage) k wm_real wm_imag a),
      (stage, sz, wm_real, wm_imag, k, a)) \<in> measure (\<lambda>(stage, sz, wm_real, wm_imag, k, a). sz - k)"
    by simp
qed

definition fft_stage :: "nat \<Rightarrow> nat \<Rightarrow> real list \<times> real list \<Rightarrow> real list \<times> real list" where
  "fft_stage sz stage a =
     (let m = (2::nat) ^ stage;
          wm_real = cos (2 * pi / real m);
          wm_imag = - sin (2 * pi / real m)
      in fft_blocks stage sz wm_real wm_imag 0 a)"

text \<open>
  The loop \<open>for (stage = 1; stage <= log2(size); stage++)\<close>. For a positive \<open>size\<close> the
  test \<open>stage <= log2(size)\<close> holds exactly when \<open>2 ^ stage \<le> size\<close> (lemma
  \<open>stage_test\<close> below); for \<open>size = 0\<close> both fail.
\<close>

function fft_stages :: "nat \<Rightarrow> nat \<Rightarrow> real list \<times> real list \<Rightarrow> real list \<times> real list" where
  "fft_stages sz stage a =
     (if 2 ^ stage \<le> sz then fft_stages sz (Suc stage) (fft_stage sz stage a) else a)"
  by pat_completeness auto
termination
proof (relation "measure (\<lambda>(sz, stage, a). Suc sz - 2 ^ stage)")
  show "wf (measure (\<lambda>(sz, stage, a). Suc sz - 2 ^ stage))"
    by simp
next
  fix sz stage :: nat and a :: "real list \<times> real list"
  assume "2 ^ stage \<le> sz"
  moreover have "0 < (2::nat) ^ stage"
    by simp
  ultimately have "Suc sz - 2 * 2 ^ stage < Suc sz - 2 ^ stage"
    by linarith
  then show "((sz, Suc stage, fft_stage sz stage a), (sz, stage, a))
      \<in> measure (\<lambda>(sz, stage, a). Suc sz - 2 ^ stage)"
    by simp
qed

text \<open>
  \<open>computeFFT\<close> copies the first \<open>size\<close> entries of the buffer, runs the stages and
  overwrites the first \<open>size / 2\<close> entries of the buffer with the magnitudes. All array
  accesses are in range when \<open>size\<close> is a power of two and the buffer holds \<open>size\<close>
  entries (lemma \<open>butterfly_in_range\<close> below), the only way the function is called; for
  other sizes the code reads and writes beyond its arrays and the model says nothing.
\<close>

definition computeFFT :: "real list \<Rightarrow> nat \<Rightarrow> real list" where
  "computeFFT buffer sz =
     (let a = fft_stages sz 1 (map (\<lambda>i. buffer ! i) [0..<sz], replicate sz 0)
      in fold (\<lambda>i b. b[i := sqrt (fst a ! i * fst a ! i + snd a ! i * snd a ! i)])
           [0..<sz div 2] buffer)"

subsection \<open>The transform the specification asks for\<close>

text \<open>
  The discrete Fourier transform as the specification writes it:
  \<open>X_k = \<Sum>_n x_n e^(-2 pi i k n / N)\<close>, by its real and imaginary part, and the magnitude
  \<open>sqrt (Re(X_k)^2 + Im(X_k)^2)\<close>.
\<close>

definition dft_re :: "real list \<Rightarrow> nat \<Rightarrow> nat \<Rightarrow> real" where
  "dft_re x N k = (\<Sum>n<N. x ! n * cos (2 * pi * real k * real n / real N))"

definition dft_im :: "real list \<Rightarrow> nat \<Rightarrow> nat \<Rightarrow> real" where
  "dft_im x N k = (\<Sum>n<N. - (x ! n * sin (2 * pi * real k * real n / real N)))"

definition dft_magnitude :: "real list \<Rightarrow> nat \<Rightarrow> nat \<Rightarrow> real" where
  "dft_magnitude x N k = sqrt ((dft_re x N k)\<^sup>2 + (dft_im x N k)\<^sup>2)"

subsection \<open>hzToMel, melToHz and the filter points of computeMelFilterbank\<close>

definition hzToMel :: "real \<Rightarrow> real" where
  "hzToMel hz = 2595 * log 10 (1 + hz / 700)"

definition melToHz :: "real \<Rightarrow> real" where
  "melToHz mel = 700 * (10 powr (mel / 2595) - 1)"

text \<open>C's \<open>roundf\<close>: to the nearest integer, halfway cases away from zero.\<close>

definition roundf :: "real \<Rightarrow> int" where
  "roundf x = (if 0 \<le> x then \<lfloor>x + 1 / 2\<rfloor> else - \<lfloor>- x + 1 / 2\<rfloor>)"

definition mel_min :: real where
  "mel_min = hzToMel (real MIN_FREQ)"

definition mel_max :: real where
  "mel_max = hzToMel (real MAX_FREQ)"

definition mel_step :: real where
  "mel_step = (mel_max - mel_min) / real (NUM_MELS + 1)"

definition mel_points :: "real list" where
  "mel_points = map (\<lambda>i. mel_min + real i * mel_step) [0..<NUM_MELS + 2]"

definition freq_points :: "real list" where
  "freq_points = map (\<lambda>i. melToHz (mel_points ! i)) [0..<NUM_MELS + 2]"

definition fft_indices :: "int list" where
  "fft_indices =
     map (\<lambda>i. roundf (freq_points ! i * real FFT_SIZE / real SAMPLE_RATE)) [0..<NUM_MELS + 2]"

subsection \<open>Applying one triangular filter\<close>

datatype fault = DivisionByZero | OutOfBounds

definition fdiv :: "real \<Rightarrow> real \<Rightarrow> fault + real" where
  "fdiv a b = (if b = 0 then Inl DivisionByZero else Inr (a / b))"

definition fetch :: "real list \<Rightarrow> int \<Rightarrow> fault + real" where
  "fetch xs j = (if 0 \<le> j \<and> nat j < length xs then Inr (xs ! nat j) else Inl OutOfBounds)"

text \<open>
  The weight of bin \<open>j\<close> for the filter with bins \<open>left = fft_indices[i]\<close>,
  \<open>center = fft_indices[i + 1]\<close> and \<open>right = fft_indices[i + 2]\<close>.
\<close>

definition mel_weight :: "int \<Rightarrow> int \<Rightarrow> int \<Rightarrow> int \<Rightarrow> fault + real" where
  "mel_weight left center right j =
     (if j < center
      then fdiv (of_int (j - left)) (of_int (center - left))
      else fdiv (of_int (right - j)) (of_int (right - center)))"

text \<open>
  The loop \<open>for (j = fft_indices[i]; j < fft_indices[i + 2]; j++)\<close>, with the running value
  of \<open>mel_energies[i]\<close> as accumulator.
\<close>

function mel_band :: "real list \<Rightarrow> int \<Rightarrow> int \<Rightarrow> int \<Rightarrow> int \<Rightarrow> real \<Rightarrow> fault + real" where
  "mel_band fft_magnitudes left center right j energy =
     (if j < right then
        (if j < int (FFT_SIZE div 2) then
           (case mel_weight left center right j of
              Inl e \<Rightarrow> Inl e
            | Inr weight \<Rightarrow>
                (case fetch fft_magnitudes j of
                   Inl e \<Rightarrow> Inl e
                 | Inr x \<Rightarrow> mel_band fft_magnitudes left center right (j + 1) (energy + x * weight)))
         else mel_band fft_magnitudes left center right (j + 1) energy)
      else Inr energy)"
  by pat_completeness auto
termination
  by (relation "measure (\<lambda>(fft_magnitudes, left, center, right, j, energy). nat (right - j))") auto

text \<open>The loop over the filters \<open>i\<close>; the result is the array \<open>mel_energies\<close>.\<close>

fun mel_filters :: "real list \<Rightarrow> int list \<Rightarrow> nat list \<Rightarrow> fault + real list" where
  "mel_filters fft_magnitudes idx [] = Inr []"
| "mel_filters fft_magnitudes idx (i # rest) =
     (case mel_band fft_magnitudes (idx ! i) (idx ! (i + 1)) (idx ! (i + 2)) (idx ! i) 0 of
        Inl e \<Rightarrow> Inl e
      | Inr energy \<Rightarrow>
          (case mel_filters fft_magnitudes idx rest of
             Inl e \<Rightarrow> Inl e
           | Inr energies \<Rightarrow> Inr (energy # energies)))"

definition computeMelFilterbank :: "real list \<Rightarrow> fault + real list" where
  "computeMelFilterbank fft_magnitudes = mel_filters fft_magnitudes fft_indices [0..<NUM_MELS]"

text \<open>
  The weight and the band energy as the specification writes them: bins below the center
  take the rising edge, bins from the center on the falling edge, and the energy is the
  sum over the bins \<open>left \<le> j < right\<close> with \<open>j < N / 2\<close>.
\<close>

definition tri_weight :: "int \<Rightarrow> int \<Rightarrow> int \<Rightarrow> int \<Rightarrow> real" where
  "tri_weight left center right j =
     (if j < center then of_int (j - left) / of_int (center - left)
      else of_int (right - j) / of_int (right - center))"

definition band_sum :: "real list \<Rightarrow> int \<Rightarrow> int \<Rightarrow> int \<Rightarrow> real" where
  "band_sum mags left center right =
     (\<Sum>j\<in>{left..<min right (int (FFT_SIZE div 2))}. mags ! nat j * tri_weight left center right j)"

text \<open>
  The two edges of the triangle on their own: what the bins below the center add to the
  sum, and what the bins from the center on add.
\<close>

definition rising_part :: "real list \<Rightarrow> int \<Rightarrow> int \<Rightarrow> int \<Rightarrow> real" where
  "rising_part mags left center right =
     (\<Sum>j\<in>{left..<min center (min right (int (FFT_SIZE div 2)))}.
        mags ! nat j * (of_int (j - left) / of_int (center - left)))"

definition falling_part :: "real list \<Rightarrow> int \<Rightarrow> int \<Rightarrow> int \<Rightarrow> real" where
  "falling_part mags left center right =
     (\<Sum>j\<in>{max left center..<min right (int (FFT_SIZE div 2))}.
        mags ! nat j * (of_int (right - j) / of_int (right - center)))"

subsection \<open>normalizeSpectrogram\<close>

definition max_scan :: "real list \<Rightarrow> nat \<Rightarrow> real" where
  "max_scan spectrogram sz =
     fold (\<lambda>i max_val. if spectrogram ! i > max_val then spectrogram ! i else max_val) [0..<sz] 0"

definition normalizeSpectrogram :: "real list \<Rightarrow> nat \<Rightarrow> real list" where
  "normalizeSpectrogram spectrogram sz =
     (let max_val = max_scan spectrogram sz
      in if max_val > 0
         then fold (\<lambda>i s. s[i := s ! i / max_val]) [0..<sz] spectrogram
         else spectrogram)"

subsection \<open>audioToMelSpectrogram\<close>

text \<open>
  The function receives two pointers, which may point into the same array. Memory is a
  map from addresses (counted in floats) to values; \<open>audio\<close> and \<open>spectrogram\<close> are the
  addresses of the first elements, so \<open>audio[idx]\<close> is \<open>h (audio + idx)\<close>. The arrays
  \<open>fft_buffer\<close> and \<open>mel_energies\<close> are locals of the function and are lists; each frame
  fills them anew before it reads them.
\<close>

type_synonym memory = "nat \<Rightarrow> real"

definition load_frame :: "memory \<Rightarrow> nat \<Rightarrow> nat \<Rightarrow> real list" where
  "load_frame h audio frame =
     map (\<lambda>i. let idx = frame * HOP_LENGTH + i in if idx < BUFFER_SIZE then h (audio + idx) else 0)
       [0..<FFT_SIZE]"

definition frame_energies :: "memory \<Rightarrow> nat \<Rightarrow> nat \<Rightarrow> fault + real list" where
  "frame_energies h audio frame =
     computeMelFilterbank
       (computeFFT (applyHannWindow (load_frame h audio frame) FFT_SIZE) FFT_SIZE)"

definition store_energies :: "memory \<Rightarrow> nat \<Rightarrow> nat \<Rightarrow> real list \<Rightarrow> memory" where
  "store_energies h spectrogram frame mel_energies =
     fold (\<lambda>mel h'. h'(spectrogram + (mel * NUM_FRAMES + frame) := mel_energies ! mel))
       [0..<NUM_MELS] h"

text \<open>The loop over the frames, a fault ending it.\<close>

fun frames_loop :: "nat \<Rightarrow> nat \<Rightarrow> nat list \<Rightarrow> memory \<Rightarrow> fault + memory" where
  "frames_loop audio spectrogram [] h = Inr h"
| "frames_loop audio spectrogram (frame # frames) h =
     (case frame_energies h audio frame of
        Inl e \<Rightarrow> Inl e
      | Inr mel_energies \<Rightarrow>
          frames_loop audio spectrogram frames (store_energies h spectrogram frame mel_energies))"

text \<open>\<open>normalizeSpectrogram\<close> run on the \<open>sz\<close> floats at address \<open>spectrogram\<close>.\<close>

definition load_array :: "memory \<Rightarrow> nat \<Rightarrow> nat \<Rightarrow> real list" where
  "load_array h p sz = map (\<lambda>i. h (p + i)) [0..<sz]"

definition normalize_at :: "memory \<Rightarrow> nat \<Rightarrow> nat \<Rightarrow> memory" where
  "normalize_at h spectrogram sz =
     (\<lambda>addr. if spectrogram \<le> addr \<and> addr < spectrogram + sz
        then normalizeSpectrogram (load_array h spectrogram sz) sz ! (addr - spectrogram)
        else h addr)"

definition audioToMelSpectrogram :: "memory \<Rightarrow> nat \<Rightarrow> nat \<Rightarrow> fault + memory" where
  "audioToMelSpectrogram h audio spectrogram =
     (case frames_loop audio spectrogram [0..<NUM_FRAMES] h of
        Inl e \<Rightarrow> Inl e
      | Inr h' \<Rightarrow> Inr (normalize_at h' spectrogram (NUM_MELS * NUM_FRAMES)))"

text \<open>A memory that holds \<open>-1.0\<close> (the sample \<open>-32768 / 32768.0f\<close>) in every cell.\<close>

definition all_minus_one :: memory where
  "all_minus_one = (\<lambda>addr. - 1)"

section \<open>Properties\<close>

subsection \<open>The loop test of the stages\<close>

lemma stage_test:
  assumes "0 < sz"
  shows "(real stage \<le> log 2 (real sz)) = (2 ^ stage \<le> sz)"
proof -
  have "real stage = log 2 (2 ^ stage)"
    by simp
  then have "(real stage \<le> log 2 (real sz)) = (log 2 (2 ^ stage) \<le> log 2 (real sz))"
    by simp
  also have "\<dots> = ((2::real) ^ stage \<le> real sz)"
    using assms by (subst log_le_cancel_iff) simp_all
  also have "\<dots> = (2 ^ stage \<le> sz)"
    by (metis of_nat_le_iff of_nat_numeral of_nat_power)
  finally show ?thesis .
qed

subsection \<open>computeFFT on inputs that vanish beyond a power of two\<close>

text \<open>
  A butterfly whose upper input is zero copies the lower entry to the upper one. When
  both arrays vanish from index \<open>2 ^ s\<close> on, stage \<open>s + 1\<close> therefore copies the first
  \<open>2 ^ s\<close> entries to the next \<open>2 ^ s\<close> and changes nothing else, and the stages from
  \<open>s + 1\<close> on make the arrays periodic with period \<open>2 ^ s\<close>.
\<close>

lemma update_keep: "lo \<noteq> hi \<Longrightarrow> xs[hi := a, lo := xs ! lo] = xs[hi := a]"
  by (metis list_update_id list_update_swap)

lemma butterfly_zero:
  assumes "k + j + m div 2 < length re" "k + j + m div 2 < length im"
    and "re ! (k + j + m div 2) = 0" "im ! (k + j + m div 2) = 0" "0 < m div 2"
  shows "butterfly m k wr wi j (re, im, w, v) =
    (re[k + j + m div 2 := re ! (k + j)], im[k + j + m div 2 := im ! (k + j)],
     w * wr - v * wi, w * wi + v * wr)"
  using assms by (simp add: Let_def update_keep)

lemma inner_copy:
  assumes "length re = N" "length im = N" "k + 2 * half \<le> N" "0 < half"
    and "\<forall>i. k + half \<le> i \<and> i < k + 2 * half \<longrightarrow> re ! i = 0 \<and> im ! i = 0"
    and "n \<le> half"
  shows "\<exists>re' im' w' v'.
    fold (butterfly (2 * half) k wr wi) [0..<n] (re, im, w, v) = (re', im', w', v') \<and>
    length re' = N \<and> length im' = N \<and>
    (\<forall>i<N. re' ! i = (if k + half \<le> i \<and> i < k + half + n then re ! (i - half) else re ! i)) \<and>
    (\<forall>i<N. im' ! i = (if k + half \<le> i \<and> i < k + half + n then im ! (i - half) else im ! i))"
  using assms(6)
proof (induction n)
  case 0
  then show ?case using assms(1,2) by simp
next
  case (Suc n)
  then have "n \<le> half" and nlt: "n < half" by simp_all
  with Suc.IH obtain re' im' w' v' where
    st: "fold (butterfly (2 * half) k wr wi) [0..<n] (re, im, w, v) = (re', im', w', v')"
    and len: "length re' = N" "length im' = N"
    and re': "\<forall>i<N. re' ! i = (if k + half \<le> i \<and> i < k + half + n then re ! (i - half) else re ! i)"
    and im': "\<forall>i<N. im' ! i = (if k + half \<le> i \<and> i < k + half + n then im ! (i - half) else im ! i)"
    by blast
  have hi: "k + n + half < N" using nlt assms(3) by linarith
  have lo: "k + n < N" using hi by linarith
  have zr: "re' ! (k + n + half) = 0" "im' ! (k + n + half) = 0"
    using re' im' hi assms(5) nlt by simp_all
  have lr: "re' ! (k + n) = re ! (k + n)" "im' ! (k + n) = im ! (k + n)"
    using re' im' lo nlt by simp_all
  have step: "butterfly (2 * half) k wr wi n (re', im', w', v') =
    (re'[k + n + half := re ! (k + n)], im'[k + n + half := im ! (k + n)],
     w' * wr - v' * wi, w' * wi + v' * wr)"
    using butterfly_zero[of k n "2 * half" re' im' wr wi w' v'] hi len zr lr assms(4) by simp
  show ?case
    using st step len re' im' hi by (auto simp: nth_list_update)
qed


declare fft_blocks.simps [simp del] fft_stages.simps [simp del] mel_band.simps [simp del]

lemma fft_block_copy:
  assumes "length (fst a) = N" "length (snd a) = N" "k + 2 * half \<le> N" "0 < half"
    and "\<forall>i. k + half \<le> i \<and> i < k + 2 * half \<longrightarrow> fst a ! i = 0 \<and> snd a ! i = 0"
  shows "length (fst (fft_block (2 * half) k wr wi a)) = N \<and>
    length (snd (fft_block (2 * half) k wr wi a)) = N \<and>
    (\<forall>i<N. fst (fft_block (2 * half) k wr wi a) ! i =
       (if k + half \<le> i \<and> i < k + 2 * half then fst a ! (i - half) else fst a ! i)) \<and>
    (\<forall>i<N. snd (fft_block (2 * half) k wr wi a) ! i =
       (if k + half \<le> i \<and> i < k + 2 * half then snd a ! (i - half) else snd a ! i))"
proof -
  obtain re' im' w' v' where
    st: "fold (butterfly (2 * half) k wr wi) [0..<half] (fst a, snd a, 1, 0) = (re', im', w', v')"
    and rest: "length re' = N" "length im' = N"
      "\<forall>i<N. re' ! i = (if k + half \<le> i \<and> i < k + half + half then fst a ! (i - half) else fst a ! i)"
      "\<forall>i<N. im' ! i = (if k + half \<le> i \<and> i < k + half + half then snd a ! (i - half) else snd a ! i)"
    using inner_copy[OF assms(1,2,3,4,5) order_refl, of wr wi 1 0] by blast
  have "fft_block (2 * half) k wr wi a = (re', im')"
    by (simp add: fft_block_def st)
  then show ?thesis
    using rest by (simp add: mult_2)
qed

lemma fft_block_id:
  assumes "length (fst a) = N" "length (snd a) = N" "k + 2 * half \<le> N" "0 < half"
    and "\<forall>i. k \<le> i \<and> i < k + 2 * half \<longrightarrow> fst a ! i = 0 \<and> snd a ! i = 0"
  shows "fft_block (2 * half) k wr wi a = a"
proof -
  let ?b = "fft_block (2 * half) k wr wi a"
  have z: "\<forall>i. k + half \<le> i \<and> i < k + 2 * half \<longrightarrow> fst a ! i = 0 \<and> snd a ! i = 0"
    using assms(5) by simp
  note c = fft_block_copy[OF assms(1,2,3,4) z, of wr wi]
  have pt: "fst ?b ! i = fst a ! i \<and> snd ?b ! i = snd a ! i" if "i < N" for i
  proof (cases "k + half \<le> i \<and> i < k + 2 * half")
    case True
    then have "k \<le> i - half \<and> i - half < k + 2 * half"
      by linarith
    then have "fst a ! (i - half) = 0 \<and> snd a ! (i - half) = 0"
      using assms(5) by blast
    moreover have "fst a ! i = 0 \<and> snd a ! i = 0"
      using True assms(5) by simp
    moreover have "fst ?b ! i = fst a ! (i - half) \<and> snd ?b ! i = snd a ! (i - half)"
      using c that True by auto
    ultimately show ?thesis
      by simp
  next
    case False
    then show ?thesis
      using c that by auto
  qed
  have "fst ?b = fst a"
    by (rule nth_equalityI) (use c assms(1) pt in simp_all)
  moreover have "snd ?b = snd a"
    by (rule nth_equalityI) (use c assms(2) pt in simp_all)
  ultimately show ?thesis
    by (simp add: prod_eq_iff)
qed

lemma block_fits:
  fixes k m N :: nat
  assumes "m dvd k" "m dvd N" "k < N"
  shows "k + m \<le> N"
proof -
  have "m dvd N - k" using assms by (simp add: dvd_diff_nat)
  moreover have "0 < N - k" using assms by simp
  ultimately have "m \<le> N - k" by (rule dvd_imp_le)
  then show ?thesis using assms by linarith
qed

lemma butterfly_in_range:
  fixes sz k j stage :: nat
  assumes "2 ^ stage dvd sz" "2 ^ stage dvd k" "k < sz" "j < 2 ^ stage div 2"
  shows "k + j + 2 ^ stage div 2 < sz"
proof -
  have "k + 2 ^ stage \<le> sz"
    using block_fits[OF assms(2,1,3)] .
  moreover have "j + 2 ^ stage div 2 < 2 ^ stage"
    using assms(4) by linarith
  ultimately show ?thesis
    by linarith
qed

lemma fft_blocks_id:
  assumes "length (fst a) = N" "length (snd a) = N" "2 * 2 ^ s dvd N" "2 * 2 ^ s dvd k"
    and "\<forall>i. k \<le> i \<and> i < N \<longrightarrow> fst a ! i = 0 \<and> snd a ! i = 0"
  shows "fft_blocks (Suc s) N wr wi k a = a"
  using assms
proof (induction "Suc s" N wr wi k a rule: fft_blocks.induct)
  case (1 sz wm_real wm_imag k a)
  show ?case
  proof (cases "k < sz")
    case True
    have fits: "k + 2 * 2 ^ s \<le> sz"
      using block_fits[OF "1.prems"(4) "1.prems"(3) True] .
    have blk: "fft_block (2 * 2 ^ s) k wm_real wm_imag a = a"
      using fft_block_id[OF "1.prems"(1,2) fits, of wm_real wm_imag] "1.prems"(5) fits by simp
    have "fft_blocks (Suc s) sz wm_real wm_imag (k + 2 ^ Suc s) a = a"
      using "1.hyps"[OF True] "1.prems" blk by simp
    then show ?thesis
      using True blk by (subst fft_blocks.simps) simp
  next
    case False
    then show ?thesis by (subst fft_blocks.simps) simp
  qed
qed

lemma fft_stage_copy:
  assumes "length (fst a) = N" "length (snd a) = N" "2 * 2 ^ s dvd N" "0 < N"
    and "\<forall>i. 2 ^ s \<le> i \<and> i < N \<longrightarrow> fst a ! i = 0 \<and> snd a ! i = 0"
  shows "length (fst (fft_stage N (Suc s) a)) = N \<and>
    length (snd (fft_stage N (Suc s) a)) = N \<and>
    (\<forall>i<N. fst (fft_stage N (Suc s) a) ! i =
       (if 2 ^ s \<le> i \<and> i < 2 * 2 ^ s then fst a ! (i - 2 ^ s) else fst a ! i)) \<and>
    (\<forall>i<N. snd (fft_stage N (Suc s) a) ! i =
       (if 2 ^ s \<le> i \<and> i < 2 * 2 ^ s then snd a ! (i - 2 ^ s) else snd a ! i))"
proof -
  define wr where "wr = cos (2 * pi / real ((2::nat) ^ Suc s))"
  define wi where "wi = - sin (2 * pi / real ((2::nat) ^ Suc s))"
  define b where "b = fft_block (2 * 2 ^ s) 0 wr wi a"
  have fits: "0 + 2 * 2 ^ s \<le> N"
    using assms(3,4) by (simp add: dvd_imp_le)
  have z: "\<forall>i. 0 + 2 ^ s \<le> i \<and> i < 0 + 2 * 2 ^ s \<longrightarrow> fst a ! i = 0 \<and> snd a ! i = 0"
    using assms(5) fits by simp
  have c: "length (fst b) = N \<and> length (snd b) = N \<and>
    (\<forall>i<N. fst b ! i = (if 0 + 2 ^ s \<le> i \<and> i < 0 + 2 * 2 ^ s then fst a ! (i - 2 ^ s) else fst a ! i)) \<and>
    (\<forall>i<N. snd b ! i = (if 0 + 2 ^ s \<le> i \<and> i < 0 + 2 * 2 ^ s then snd a ! (i - 2 ^ s) else snd a ! i))"
    unfolding b_def by (rule fft_block_copy[OF assms(1,2) fits _ z]) simp
  have zb: "\<forall>i. 0 + 2 ^ Suc s \<le> i \<and> i < N \<longrightarrow> fst b ! i = 0 \<and> snd b ! i = 0"
    using c assms(5) by auto
  have rest: "fft_blocks (Suc s) N wr wi (0 + 2 ^ Suc s) b = b"
    by (rule fft_blocks_id[OF _ _ assms(3) _ zb]) (use c in simp_all)
  have "fft_stage N (Suc s) a = fft_blocks (Suc s) N wr wi 0 a"
    by (simp add: fft_stage_def wr_def wi_def)
  also have "\<dots> = fft_blocks (Suc s) N wr wi (0 + 2 ^ Suc s) b"
    using assms(4) by (subst fft_blocks.simps) (simp add: b_def)
  finally have "fft_stage N (Suc s) a = b"
    using rest by simp
  then show ?thesis
    using c by simp
qed

lemma mod_half:
  fixes i h :: nat
  assumes "0 < h"
  shows "i mod h = (if h \<le> i mod (2 * h) then i mod (2 * h) - h else i mod (2 * h))"
proof -
  define r where "r = i mod (2 * h)"
  have r: "r < 2 * h" using assms by (simp add: r_def)
  have "i mod h = r mod h"
    by (simp add: r_def mod_mod_cancel)
  also have "\<dots> = (if h \<le> r then r - h else r)"
  proof (cases "h \<le> r")
    case True
    then have "r mod h = (r - h) mod h" by (simp add: le_mod_geq)
    moreover have "r - h < h" using r True by linarith
    ultimately show ?thesis using True by simp
  next
    case False
    then show ?thesis by simp
  qed
  finally show ?thesis by (simp add: r_def)
qed

lemma fft_stages_periodic:
  assumes "length (fst a) = 2 ^ p" "length (snd a) = 2 ^ p" "s \<le> p"
    and "\<forall>i. 2 ^ s \<le> i \<and> i < 2 ^ p \<longrightarrow> fst a ! i = 0 \<and> snd a ! i = 0"
  shows "length (fst (fft_stages (2 ^ p) (Suc s) a)) = 2 ^ p \<and>
    length (snd (fft_stages (2 ^ p) (Suc s) a)) = 2 ^ p \<and>
    (\<forall>i<2 ^ p. fst (fft_stages (2 ^ p) (Suc s) a) ! i = fst a ! (i mod 2 ^ s)) \<and>
    (\<forall>i<2 ^ p. snd (fft_stages (2 ^ p) (Suc s) a) ! i = snd a ! (i mod 2 ^ s))"
  using assms
proof (induction "p - s" arbitrary: s a)
  case 0
  then have "s = p" by simp
  then have "fft_stages (2 ^ p) (Suc s) a = a"
    by (subst fft_stages.simps) simp
  then show ?case
    using "0.prems" \<open>s = p\<close> by simp
next
  case (Suc d)
  then have lt: "s < p" by simp
  define N :: nat where "N = 2 ^ p"
  define b where "b = fft_stage N (Suc s) a"
  have dv: "2 * 2 ^ s dvd N"
    using lt le_imp_power_dvd[of "Suc s" p "2::nat"] by (simp add: N_def)
  have pos: "0 < N" by (simp add: N_def)
  have le: "(2::nat) * 2 ^ s \<le> N"
    using dv pos by (rule_tac dvd_imp_le)
  have c: "length (fst b) = N \<and> length (snd b) = N \<and>
    (\<forall>i<N. fst b ! i = (if 2 ^ s \<le> i \<and> i < 2 * 2 ^ s then fst a ! (i - 2 ^ s) else fst a ! i)) \<and>
    (\<forall>i<N. snd b ! i = (if 2 ^ s \<le> i \<and> i < 2 * 2 ^ s then snd a ! (i - 2 ^ s) else snd a ! i))"
    unfolding b_def
    by (rule fft_stage_copy) (use Suc.prems dv pos in \<open>simp_all add: N_def\<close>)
  have zb: "\<forall>i. 2 ^ Suc s \<le> i \<and> i < 2 ^ p \<longrightarrow> fst b ! i = 0 \<and> snd b ! i = 0"
    using c Suc.prems(4) by (auto simp: N_def)
  have d: "d = p - Suc s" using Suc.hyps(2) by simp
  have ih: "length (fst (fft_stages (2 ^ p) (Suc (Suc s)) b)) = 2 ^ p \<and>
    length (snd (fft_stages (2 ^ p) (Suc (Suc s)) b)) = 2 ^ p \<and>
    (\<forall>i<2 ^ p. fst (fft_stages (2 ^ p) (Suc (Suc s)) b) ! i = fst b ! (i mod 2 ^ Suc s)) \<and>
    (\<forall>i<2 ^ p. snd (fft_stages (2 ^ p) (Suc (Suc s)) b) ! i = snd b ! (i mod 2 ^ Suc s))"
    by (rule Suc.hyps(1)[OF d _ _ _ zb]) (use c lt in \<open>simp_all add: N_def\<close>)
  have unf: "fft_stages (2 ^ p) (Suc s) a = fft_stages (2 ^ p) (Suc (Suc s)) b"
    using le by (subst fft_stages.simps) (simp add: b_def N_def)
  have pt: "fst b ! (i mod 2 ^ Suc s) = fst a ! (i mod 2 ^ s) \<and>
      snd b ! (i mod 2 ^ Suc s) = snd a ! (i mod 2 ^ s)" for i
  proof -
    have "i mod 2 ^ Suc s < 2 * 2 ^ s" by simp
    then have "i mod 2 ^ Suc s < N" using le by linarith
    then show ?thesis
      using c mod_half[of "2 ^ s" i] by auto
  qed
  show ?case
    unfolding unf using ih pt by simp
qed

lemma fold_update_nth:
  assumes "n \<le> length b"
  shows "length (fold (\<lambda>i b. b[i := f i]) [0..<n] b) = length b \<and>
    (\<forall>j<length b. fold (\<lambda>i b. b[i := f i]) [0..<n] b ! j = (if j < n then f j else b ! j))"
  using assms by (induction n) (auto simp: nth_list_update)

lemma computeFFT_nth:
  assumes "sz div 2 \<le> length buffer" "k < sz div 2"
  shows "computeFFT buffer sz ! k =
    sqrt (fst (fft_stages sz 1 (map (\<lambda>i. buffer ! i) [0..<sz], replicate sz 0)) ! k *
          fst (fft_stages sz 1 (map (\<lambda>i. buffer ! i) [0..<sz], replicate sz 0)) ! k +
          snd (fft_stages sz 1 (map (\<lambda>i. buffer ! i) [0..<sz], replicate sz 0)) ! k *
          snd (fft_stages sz 1 (map (\<lambda>i. buffer ! i) [0..<sz], replicate sz 0)) ! k)"
  using assms fold_update_nth[of "sz div 2" buffer] by (simp add: computeFFT_def Let_def)

lemma computeFFT_length:
  assumes "sz div 2 \<le> length buffer"
  shows "length (computeFFT buffer sz) = length buffer"
  using assms fold_update_nth[of "sz div 2" buffer] by (simp add: computeFFT_def Let_def)

lemma impulse_bins:
  assumes "length x = 2 ^ p" "x ! 0 = 1" "\<forall>i. 0 < i \<and> i < 2 ^ p \<longrightarrow> x ! i = 0"
    and "k < 2 ^ p div 2"
  shows "computeFFT x (2 ^ p) ! k = 1"
proof -
  define a where "a = (map (\<lambda>i. x ! i) [0..<2 ^ p], replicate (2 ^ p) (0::real))"
  have z: "\<forall>i. 2 ^ 0 \<le> i \<and> i < 2 ^ p \<longrightarrow> fst a ! i = 0 \<and> snd a ! i = 0"
    using assms(3) by (simp add: a_def)
  have per: "length (fst (fft_stages (2 ^ p) (Suc 0) a)) = 2 ^ p \<and>
    length (snd (fft_stages (2 ^ p) (Suc 0) a)) = 2 ^ p \<and>
    (\<forall>i<2 ^ p. fst (fft_stages (2 ^ p) (Suc 0) a) ! i = fst a ! (i mod 2 ^ 0)) \<and>
    (\<forall>i<2 ^ p. snd (fft_stages (2 ^ p) (Suc 0) a) ! i = snd a ! (i mod 2 ^ 0))"
    by (rule fft_stages_periodic[OF _ _ _ z]) (simp_all add: a_def)
  have k: "k < 2 ^ p" using assms(4) by simp
  have "fst (fft_stages (2 ^ p) 1 a) ! k = 1" "snd (fft_stages (2 ^ p) 1 a) ! k = 0"
    using per k assms(2) by (simp_all add: a_def)
  then show ?thesis
    using computeFFT_nth[of "2 ^ p" x k] assms(1,4) by (simp add: a_def)
qed

lemma replicate_update_same: "(replicate n c)[i := c] = replicate n c"
  by (cases "i < n") (simp_all add: list_update_same_conv list_update_beyond)

lemma two_impulses_stage1:
  "fft_stage 512 (Suc 0) (1 # 1 # replicate 510 0, replicate 512 0) =
     (2 # 0 # replicate 510 0, replicate 512 0)"
proof -
  define wr where "wr = cos (2 * pi / real ((2::nat) ^ Suc 0))"
  define wi where "wi = - sin (2 * pi / real ((2::nat) ^ Suc 0))"
  define b :: "real list \<times> real list" where "b = (2 # 0 # replicate 510 0, replicate 512 0)"
  have blk: "fft_block (2 ^ Suc 0) 0 wr wi (1 # 1 # replicate 510 0, replicate 512 0) = b"
    by (simp add: fft_block_def Let_def b_def replicate_update_same)
  have zb: "\<forall>i. 2 \<le> i \<and> i < 512 \<longrightarrow> fst b ! i = 0 \<and> snd b ! i = 0"
    by (auto simp: b_def nth_Cons split: nat.splits)
  have rest: "fft_blocks (Suc 0) 512 wr wi (Suc (Suc 0)) b = b"
    using fft_blocks_id[where a = b and N = 512 and s = 0 and k = "Suc (Suc 0)" and wr = wr and wi = wi] zb
    by (simp add: b_def)
  have "fft_stage 512 (Suc 0) (1 # 1 # replicate 510 0, replicate 512 0) =
      fft_blocks (Suc 0) 512 wr wi 0 (1 # 1 # replicate 510 0, replicate 512 0)"
    by (simp add: fft_stage_def wr_def wi_def)
  also have "\<dots> = fft_blocks (Suc 0) 512 wr wi (Suc (Suc 0)) b"
    using blk by (subst fft_blocks.simps) simp
  finally show ?thesis
    using rest by (simp add: b_def)
qed

lemma two_impulses_bin1:
  "computeFFT (1 # 1 # replicate 510 0) 512 ! 1 = 0"
proof -
  define x :: "real list" where "x = 1 # 1 # replicate 510 0"
  define b :: "real list \<times> real list" where "b = (2 # 0 # replicate 510 0, replicate 512 0)"
  have lx: "length x = 512" by (simp add: x_def)
  have mx: "map (\<lambda>i. x ! i) [0..<512] = x"
    using map_nth[of x] lx by simp
  have zb: "\<forall>i. 2 ^ 1 \<le> i \<and> i < 2 ^ 9 \<longrightarrow> fst b ! i = 0 \<and> snd b ! i = 0"
    by (auto simp: b_def nth_Cons split: nat.splits)
  have per: "length (fst (fft_stages (2 ^ 9) (Suc 1) b)) = 2 ^ 9 \<and>
    length (snd (fft_stages (2 ^ 9) (Suc 1) b)) = 2 ^ 9 \<and>
    (\<forall>i<2 ^ 9. fst (fft_stages (2 ^ 9) (Suc 1) b) ! i = fst b ! (i mod 2 ^ 1)) \<and>
    (\<forall>i<2 ^ 9. snd (fft_stages (2 ^ 9) (Suc 1) b) ! i = snd b ! (i mod 2 ^ 1))"
    by (rule fft_stages_periodic[OF _ _ _ zb]) (simp_all add: b_def)
  have "fft_stages 512 1 (x, replicate 512 0) = fft_stages 512 (Suc 1) b"
    using two_impulses_stage1 by (subst fft_stages.simps) (simp add: x_def b_def)
  moreover have "fst (fft_stages 512 (Suc 1) b) ! 1 = 0" "snd (fft_stages 512 (Suc 1) b) ! 1 = 0"
    using per by (simp_all add: b_def)
  ultimately show ?thesis
    using computeFFT_nth[of 512 x 1] lx mx by (simp add: x_def)
qed

lemma sum_two_terms:
  fixes f :: "nat \<Rightarrow> real"
  assumes "2 \<le> N" "\<forall>n. 2 \<le> n \<and> n < N \<longrightarrow> f n = 0"
  shows "(\<Sum>n<N. f n) = f 0 + f 1"
proof -
  have "{..<N} = {0, 1} \<union> {2..<N}" using assms(1) by auto
  then have "(\<Sum>n<N. f n) = (\<Sum>n\<in>{0, 1}. f n) + (\<Sum>n\<in>{2..<N}. f n)"
    by (simp add: sum.union_disjoint)
  moreover have "(\<Sum>n\<in>{2..<N}. f n) = 0"
    using assms(2) by (intro sum.neutral) simp
  ultimately show ?thesis by simp
qed

lemma two_impulses_dft:
  "1 \<le> dft_magnitude (1 # 1 # replicate 510 0) 512 1"
proof -
  define x :: "real list" where "x = 1 # 1 # replicate 510 0"
  have z: "\<forall>n. 2 \<le> n \<and> n < 512 \<longrightarrow> x ! n = 0"
    by (auto simp: x_def nth_Cons split: nat.splits)
  have "dft_re x 512 1 = x ! 0 * cos (2 * pi * real 1 * real 0 / real 512)
      + x ! 1 * cos (2 * pi * real 1 * real 1 / real 512)"
    unfolding dft_re_def using z by (intro sum_two_terms) simp_all
  then have re: "dft_re x 512 1 = 1 + cos (pi / 256)"
    by (simp add: x_def)
  have "0 \<le> cos (pi / 256)"
    by (rule cos_ge_zero) (use pi_gt_zero in simp_all)
  then have "1 \<le> dft_re x 512 1" using re by simp
  also have "\<dots> \<le> sqrt ((dft_re x 512 1)\<^sup>2 + (dft_im x 512 1)\<^sup>2)"
    by (rule real_sqrt_sum_squares_ge1)
  finally show ?thesis by (simp add: dft_magnitude_def x_def)
qed

text \<open>
  C2. For every power of two \<open>N = 2 ^ p\<close>, \<open>computeFFT\<close> on the impulse (\<open>x[0] = 1\<close>, every
  other entry 0) puts the same value, 1, into each of the \<open>N / 2\<close> output bins.
\<close>

theorem impulse_constant_spectrum:
  assumes "length x = 2 ^ p" "x ! 0 = 1" "\<forall>i. 0 < i \<and> i < 2 ^ p \<longrightarrow> x ! i = 0"
    and "k < 2 ^ p div 2"
  shows "computeFFT x (2 ^ p) ! k = computeFFT x (2 ^ p) ! 0 \<and> computeFFT x (2 ^ p) ! k = 1"
proof -
  have one: "computeFFT x (2 ^ p) ! j = 1" if "j < 2 ^ p div 2" for j
    using impulse_bins[OF assms(1,2,3) that] .
  have "0 < (2::nat) ^ p div 2"
    using assms(4) by linarith
  then show ?thesis
    using one[of k] one[of 0] assms(4) by simp
qed

theorem impulse_constant_spectrum_witness:
  "computeFFT (1 # replicate 7 0) (2 ^ 3) ! 3 = computeFFT (1 # replicate 7 0) (2 ^ 3) ! 0 \<and>
   computeFFT (1 # replicate 7 0) (2 ^ 3) ! 3 = 1"
proof -
  have zeros: "\<forall>i. 0 < i \<and> i < 2 ^ 3 \<longrightarrow> (1 # replicate 7 (0::real)) ! i = 0"
    by (auto simp: nth_Cons')
  show ?thesis
    by (rule impulse_constant_spectrum[OF _ _ zeros]) simp_all
qed

text \<open>
  C1. The specification asks that slot \<open>k\<close> of the buffer hold the magnitude of the
  discrete Fourier transform at bin \<open>k\<close>. For the 512-point input \<open>x[0] = x[1] = 1\<close>, every other entry 0,
  \<open>computeFFT\<close> leaves 0 in slot 1, while the magnitude of the transform at bin 1 is
  \<open>sqrt ((1 + cos (pi / 256))^2 + sin (pi / 256)^2)\<close>, which is at least 1. The stages
  combine neighbouring entries first and the input is never reordered.
\<close>

theorem computeFFT_two_impulses:
  "computeFFT (1 # 1 # replicate 510 0) FFT_SIZE ! 1 = 0 \<and>
   1 \<le> dft_magnitude (1 # 1 # replicate 510 0) FFT_SIZE 1"
  using two_impulses_bin1 two_impulses_dft by (simp add: FFT_SIZE_def)

subsection \<open>Applying the filters\<close>

lemma mel_weight_defined:
  assumes "left \<le> j" "j < right"
  shows "mel_weight left center right j = Inr (tri_weight left center right j)"
  using assms by (auto simp: mel_weight_def tri_weight_def fdiv_def)

lemma tri_weight_nonneg:
  assumes "left \<le> j" "j < right"
  shows "0 \<le> tri_weight left center right j"
  using assms by (auto simp: tri_weight_def intro!: divide_nonneg_nonneg)

lemma int_range_split:
  fixes j n :: int
  assumes "j < n"
  shows "{j..<n} = insert j {j + 1..<n}"
  using assms by auto

lemma mel_band_sum:
  assumes "left \<le> j" "0 \<le> j" "nat (min right (int (FFT_SIZE div 2))) \<le> length mags"
  shows "mel_band mags left center right j energy =
    Inr (energy + (\<Sum>i\<in>{j..<min right (int (FFT_SIZE div 2))}. mags ! nat i * tri_weight left center right i))"
  using assms
proof (induction mags left center right j energy rule: mel_band.induct)
  case (1 mags left center right j energy)
  let ?M = "min right (int (FFT_SIZE div 2))"
  show ?case
  proof (cases "j < right")
    case False
    then have "{j..<?M} = {}" by simp
    then show ?thesis
      using False by (subst mel_band.simps) simp
  next
    case True
    show ?thesis
    proof (cases "j < int (FFT_SIZE div 2)")
      case inside: True
      have w: "mel_weight left center right j = Inr (tri_weight left center right j)"
        using mel_weight_defined[OF "1.prems"(1) True] .
      have "j < ?M"
        using True inside by simp
      then have "nat j < nat ?M"
        using "1.prems"(2) by linarith
      then have "nat j < length mags"
        using "1.prems"(3) by linarith
      then have f: "fetch mags j = Inr (mags ! nat j)"
        using "1.prems"(2) by (simp add: fetch_def)
      have ih: "mel_band mags left center right (j + 1) (energy + mags ! nat j * tri_weight left center right j) =
        Inr (energy + mags ! nat j * tri_weight left center right j +
          (\<Sum>i\<in>{j + 1..<?M}. mags ! nat i * tri_weight left center right i))"
        using "1.IH"(1)[OF True inside w f] "1.prems" by simp
      have "{j..<?M} = insert j {j + 1..<?M}"
        using True inside by (intro int_range_split) simp
      then have "(\<Sum>i\<in>{j..<?M}. mags ! nat i * tri_weight left center right i) =
        mags ! nat j * tri_weight left center right j +
        (\<Sum>i\<in>{j + 1..<?M}. mags ! nat i * tri_weight left center right i)"
        by simp
      then show ?thesis
        using True inside w f ih by (subst mel_band.simps) simp
    next
      case outside: False
      have ih: "mel_band mags left center right (j + 1) energy =
        Inr (energy + (\<Sum>i\<in>{j + 1..<?M}. mags ! nat i * tri_weight left center right i))"
        using "1.IH"(2)[OF True outside] "1.prems" by simp
      have "{j..<?M} = {}" "{j + 1..<?M} = {}"
        using outside by simp_all
      then show ?thesis
        using True outside ih by (subst mel_band.simps) simp
    qed
  qed
qed

lemma mel_band_no_division_by_zero:
  assumes "left \<le> j"
  shows "mel_band mags left center right j energy \<noteq> Inl DivisionByZero"
  using assms
proof (induction mags left center right j energy rule: mel_band.induct)
  case (1 mags left center right j energy)
  show ?case
  proof (cases "j < right")
    case False
    then show ?thesis by (subst mel_band.simps) simp
  next
    case True
    show ?thesis
    proof (cases "j < int (FFT_SIZE div 2)")
      case inside: True
      have w: "mel_weight left center right j = Inr (tri_weight left center right j)"
        using mel_weight_defined[OF "1.prems"(1) True] .
      show ?thesis
      proof (cases "fetch mags j")
        case (Inl e)
        then have "e = OutOfBounds" by (auto simp: fetch_def split: if_splits)
        then show ?thesis
          using True inside w Inl by (subst mel_band.simps) simp
      next
        case (Inr x)
        have "mel_band mags left center right (j + 1) (energy + x * tri_weight left center right j)
            \<noteq> Inl DivisionByZero"
          using "1.IH"(1)[OF True inside w Inr] "1.prems" by simp
        then show ?thesis
          using True inside w Inr by (subst mel_band.simps) simp
      qed
    next
      case outside: False
      have "mel_band mags left center right (j + 1) energy \<noteq> Inl DivisionByZero"
        using "1.IH"(2)[OF True outside] "1.prems" by simp
      then show ?thesis
        using True outside by (subst mel_band.simps) simp
    qed
  qed
qed

lemma mel_filters_no_division_by_zero:
  "mel_filters mags idx bands \<noteq> Inl DivisionByZero"
proof (induction bands)
  case Nil
  then show ?case by simp
next
  case (Cons i bands)
  have "mel_band mags (idx ! i) (idx ! (i + 1)) (idx ! (i + 2)) (idx ! i) 0 \<noteq> Inl DivisionByZero"
    by (rule mel_band_no_division_by_zero) simp
  then show ?case
    using Cons by (auto split: sum.splits)
qed

lemma band_sum_split:
  "band_sum mags left center right = rising_part mags left center right + falling_part mags left center right"
proof -
  let ?M = "min right (int (FFT_SIZE div 2))"
  let ?A = "{left..<min center ?M}"
  let ?B = "{max left center..<?M}"
  have un: "{left..<?M} = ?A \<union> ?B" by auto
  have dj: "?A \<inter> ?B = {}" by auto
  have "band_sum mags left center right =
      (\<Sum>j\<in>?A. mags ! nat j * tri_weight left center right j) +
      (\<Sum>j\<in>?B. mags ! nat j * tri_weight left center right j)"
    unfolding band_sum_def un by (rule sum.union_disjoint) (use dj in simp_all)
  moreover have "(\<Sum>j\<in>?A. mags ! nat j * tri_weight left center right j) = rising_part mags left center right"
    unfolding rising_part_def by (rule sum.cong) (simp_all add: tri_weight_def)
  moreover have "(\<Sum>j\<in>?B. mags ! nat j * tri_weight left center right j) = falling_part mags left center right"
    unfolding falling_part_def by (rule sum.cong) (simp_all add: tri_weight_def)
  ultimately show ?thesis by simp
qed

lemma band_sum_nonneg:
  assumes "0 \<le> left" "\<forall>j<FFT_SIZE div 2. 0 \<le> mags ! j"
  shows "0 \<le> band_sum mags left center right"
  unfolding band_sum_def
proof (rule sum_nonneg)
  fix j assume j: "j \<in> {left..<min right (int (FFT_SIZE div 2))}"
  then have "nat j < FFT_SIZE div 2" using assms(1) by auto
  then have "0 \<le> mags ! nat j" using assms(2) by simp
  moreover have "0 \<le> tri_weight left center right j"
    using j by (intro tri_weight_nonneg) simp_all
  ultimately show "0 \<le> mags ! nat j * tri_weight left center right j"
    by simp
qed

subsection \<open>The filter points\<close>

lemma hzToMel_mono:
  assumes "0 \<le> a" "a \<le> b"
  shows "hzToMel a \<le> hzToMel b"
proof -
  have "log 10 (1 + a / 700) \<le> log 10 (1 + b / 700)"
    using assms by (subst log_le_cancel_iff) (simp_all add: add_pos_nonneg)
  then show ?thesis
    by (simp add: hzToMel_def)
qed

lemma hzToMel_nonneg:
  assumes "0 \<le> a"
  shows "0 \<le> hzToMel a"
proof -
  have "0 \<le> log 10 (1 + a / 700)"
    using assms by (subst zero_le_log_cancel_iff) (simp_all add: add_pos_nonneg)
  then show ?thesis
    by (simp add: hzToMel_def)
qed

lemma mel_min_nonneg: "0 \<le> mel_min"
  by (simp add: mel_min_def hzToMel_nonneg)

lemma mel_step_nonneg: "0 \<le> mel_step"
proof -
  have "mel_min \<le> mel_max"
    unfolding mel_min_def mel_max_def
    by (rule hzToMel_mono) (simp_all add: MIN_FREQ_def MAX_FREQ_def)
  then show ?thesis
    by (simp add: mel_step_def)
qed

lemma melToHz_mono:
  assumes "a \<le> b"
  shows "melToHz a \<le> melToHz b"
proof -
  have "(10::real) powr (a / 2595) \<le> 10 powr (b / 2595)"
    using assms by (intro powr_mono) simp_all
  then show ?thesis
    by (simp add: melToHz_def)
qed

lemma melToHz_nonneg:
  assumes "0 \<le> a"
  shows "0 \<le> melToHz a"
proof -
  have "melToHz 0 \<le> melToHz a"
    using assms by (rule melToHz_mono)
  then show ?thesis
    by (simp add: melToHz_def)
qed

lemma roundf_mono:
  assumes "x \<le> y"
  shows "roundf x \<le> roundf y"
proof -
  consider "0 \<le> x" | "x < 0" "0 \<le> y" | "y < 0"
    using assms by linarith
  then show ?thesis
  proof cases
    case 1
    then have "0 \<le> y" using assms by simp
    moreover have "\<lfloor>x + 1 / 2\<rfloor> \<le> \<lfloor>y + 1 / 2\<rfloor>"
      using assms by (intro floor_mono) simp
    ultimately show ?thesis
      using 1 by (simp add: roundf_def)
  next
    case 2
    define a where "a = \<lfloor>- x + 1 / 2\<rfloor>"
    define b where "b = \<lfloor>y + 1 / 2\<rfloor>"
    have "0 \<le> a" "0 \<le> b"
      unfolding a_def b_def using 2 by simp_all
    moreover have "roundf x = - a" "roundf y = b"
      unfolding a_def b_def roundf_def using 2 by simp_all
    ultimately show ?thesis
      by linarith
  next
    case 3
    then have "x < 0" using assms by simp
    moreover have "\<lfloor>- y + 1 / 2\<rfloor> \<le> \<lfloor>- x + 1 / 2\<rfloor>"
      using assms by (intro floor_mono) simp
    ultimately show ?thesis
      using 3 by (simp add: roundf_def)
  qed
qed

lemma roundf_nonneg:
  assumes "0 \<le> x"
  shows "0 \<le> roundf x"
  using assms by (simp add: roundf_def)

lemma length_fft_indices: "length fft_indices = NUM_MELS + 2"
  by (simp add: fft_indices_def)

lemma fft_indices_nth:
  assumes "i < NUM_MELS + 2"
  shows "fft_indices ! i =
    roundf (melToHz (mel_min + real i * mel_step) * real FFT_SIZE / real SAMPLE_RATE)"
proof -
  have "mel_points ! i = mel_min + real i * mel_step"
    using assms by (simp add: mel_points_def del: upt_Suc)
  moreover have "freq_points ! i = melToHz (mel_points ! i)"
    using assms by (simp add: freq_points_def del: upt_Suc)
  moreover have "fft_indices ! i = roundf (freq_points ! i * real FFT_SIZE / real SAMPLE_RATE)"
    using assms by (simp add: fft_indices_def del: upt_Suc)
  ultimately show ?thesis
    by simp
qed

lemma fft_indices_step:
  assumes "i < NUM_MELS + 1"
  shows "fft_indices ! i \<le> fft_indices ! (i + 1)"
proof -
  have "real i * mel_step \<le> real (i + 1) * mel_step"
    using mel_step_nonneg by (intro mult_right_mono) simp_all
  then have "melToHz (mel_min + real i * mel_step) \<le> melToHz (mel_min + real (i + 1) * mel_step)"
    by (intro melToHz_mono) simp
  then have "melToHz (mel_min + real i * mel_step) * real FFT_SIZE / real SAMPLE_RATE
      \<le> melToHz (mel_min + real (i + 1) * mel_step) * real FFT_SIZE / real SAMPLE_RATE"
    by (intro divide_right_mono mult_right_mono) simp_all
  then have "roundf (melToHz (mel_min + real i * mel_step) * real FFT_SIZE / real SAMPLE_RATE)
      \<le> roundf (melToHz (mel_min + real (i + 1) * mel_step) * real FFT_SIZE / real SAMPLE_RATE)"
    by (rule roundf_mono)
  then show ?thesis
    using assms fft_indices_nth[of i] fft_indices_nth[of "i + 1"] by simp
qed

lemma fft_indices_nonneg:
  assumes "i < NUM_MELS + 2"
  shows "0 \<le> fft_indices ! i"
proof -
  have "0 \<le> mel_min + real i * mel_step"
    using mel_min_nonneg mel_step_nonneg by simp
  then have "0 \<le> melToHz (mel_min + real i * mel_step)"
    by (rule melToHz_nonneg)
  then have "0 \<le> melToHz (mel_min + real i * mel_step) * real FFT_SIZE / real SAMPLE_RATE"
    by simp
  then show ?thesis
    using assms fft_indices_nth[of i] roundf_nonneg by simp
qed

lemma fft_indices_sorted: "sorted fft_indices"
proof -
  have "\<forall>i. Suc i < length fft_indices \<longrightarrow> fft_indices ! i \<le> fft_indices ! Suc i"
    using fft_indices_step by (simp add: length_fft_indices)
  then show ?thesis
    by (simp add: sorted_iff_nth_Suc)
qed

lemma mel_filters_sums:
  assumes "\<forall>i\<in>set bands. 0 \<le> idx ! i"
    and "FFT_SIZE div 2 \<le> length mags"
  shows "mel_filters mags idx bands =
    Inr (map (\<lambda>i. band_sum mags (idx ! i) (idx ! (i + 1)) (idx ! (i + 2))) bands)"
  using assms(1)
proof (induction bands)
  case Nil
  then show ?case by simp
next
  case (Cons i bands)
  have "nat (min (idx ! (i + 2)) (int (FFT_SIZE div 2))) \<le> length mags"
    using assms(2) by linarith
  then have "mel_band mags (idx ! i) (idx ! (i + 1)) (idx ! (i + 2)) (idx ! i) 0 =
      Inr (band_sum mags (idx ! i) (idx ! (i + 1)) (idx ! (i + 2)))"
    using mel_band_sum[of "idx ! i" "idx ! i" "idx ! (i + 2)" mags "idx ! (i + 1)" 0] Cons.prems
    by (simp add: band_sum_def)
  then show ?case
    using Cons by simp
qed

lemma computeMelFilterbank_sums:
  assumes "FFT_SIZE div 2 \<le> length mags"
  shows "computeMelFilterbank mags =
    Inr (map (\<lambda>i. band_sum mags (fft_indices ! i) (fft_indices ! (i + 1)) (fft_indices ! (i + 2)))
      [0..<NUM_MELS])"
  unfolding computeMelFilterbank_def
  by (rule mel_filters_sums) (use assms fft_indices_nonneg in simp_all)

subsection \<open>The maximum scan and the division\<close>

lemma max_scan_eq:
  assumes "n \<le> length xs"
  shows "max_scan xs n = Max (insert 0 (set (take n xs)))"
  using assms
proof (induction n)
  case 0
  then show ?case by (simp add: max_scan_def)
next
  case (Suc n)
  then have ih: "max_scan xs n = Max (insert 0 (set (take n xs)))" and n: "n < length xs"
    by simp_all
  have "max_scan xs (Suc n) = max (max_scan xs n) (xs ! n)"
    by (simp add: max_scan_def max_def)
  also have "\<dots> = max (xs ! n) (Max (insert 0 (set (take n xs))))"
    using ih by (simp add: max.commute)
  also have "\<dots> = Max (insert (xs ! n) (insert 0 (set (take n xs))))"
    by (subst Max_insert) simp_all
  also have "insert (xs ! n) (insert 0 (set (take n xs))) = insert 0 (set (take (Suc n) xs))"
    using n by (auto simp: take_Suc_conv_app_nth)
  finally show ?case .
qed

lemma fold_scale_nth:
  assumes "n \<le> length xs"
  shows "length (fold (\<lambda>i s. s[i := s ! i / m]) [0..<n] xs) = length xs \<and>
    (\<forall>j<length xs. fold (\<lambda>i s. s[i := s ! i / m]) [0..<n] xs ! j = (if j < n then xs ! j / m else xs ! j))"
  using assms by (induction n) (auto simp: nth_list_update)

lemma fold_scale_eq:
  assumes "n \<le> length xs"
  shows "fold (\<lambda>i s. s[i := s ! i / m]) [0..<n] xs = map (\<lambda>x. x / m) (take n xs) @ drop n xs"
proof (rule nth_equalityI)
  show "length (fold (\<lambda>i s. s[i := s ! i / m]) [0..<n] xs) = length (map (\<lambda>x. x / m) (take n xs) @ drop n xs)"
    using fold_scale_nth[OF assms, of m] assms by simp
next
  fix j assume "j < length (fold (\<lambda>i s. s[i := s ! i / m]) [0..<n] xs)"
  then have j: "j < length xs"
    using fold_scale_nth[OF assms, of m] by simp
  then show "fold (\<lambda>i s. s[i := s ! i / m]) [0..<n] xs ! j = (map (\<lambda>x. x / m) (take n xs) @ drop n xs) ! j"
    using fold_scale_nth[OF assms, of m] assms by (auto simp: nth_append)
qed

lemma normalizeSpectrogram_eq:
  assumes "n \<le> length xs"
  shows "normalizeSpectrogram xs n =
    (if 0 < max_scan xs n then map (\<lambda>x. x / max_scan xs n) (take n xs) @ drop n xs else xs)"
  using fold_scale_eq[OF assms] by (simp add: normalizeSpectrogram_def Let_def)

lemma max_scan_nonneg: "n \<le> length xs \<Longrightarrow> 0 \<le> max_scan xs n"
  by (simp add: max_scan_eq)

lemma max_scan_scaled:
  assumes "n \<le> length xs" "0 < max_scan xs n"
  shows "max_scan (map (\<lambda>x. x / max_scan xs n) (take n xs) @ drop n xs) n = 1"
proof -
  define m where "m = max_scan xs n"
  define S where "S = insert 0 (set (take n xs))"
  have m: "m = Max S" "0 < m"
    using assms by (simp_all add: m_def S_def max_scan_eq)
  have fin: "finite S" "S \<noteq> {}" by (simp_all add: S_def)
  have "m \<in> S" using Max_in[OF fin] m by simp
  then have mem: "m \<in> set (take n xs)" using m by (auto simp: S_def)
  have le: "x \<le> m" if "x \<in> set (take n xs)" for x
    using Max_ge[of S x] fin that m by (simp add: S_def)
  let ?ys = "map (\<lambda>x. x / m) (take n xs) @ drop n xs"
  have "n \<le> length ?ys" using assms(1) by simp
  then have "max_scan ?ys n = Max (insert 0 (set (take n ?ys)))"
    by (rule max_scan_eq)
  also have "take n ?ys = map (\<lambda>x. x / m) (take n xs)"
    using assms(1) by simp
  also have "Max (insert 0 (set (map (\<lambda>x. x / m) (take n xs)))) = 1"
  proof (rule Max_eqI)
    show "finite (insert 0 (set (map (\<lambda>x. x / m) (take n xs))))" by simp
  next
    fix y assume "y \<in> insert 0 (set (map (\<lambda>x. x / m) (take n xs)))"
    then consider "y = 0" | x where "x \<in> set (take n xs)" "y = x / m" by auto
    then show "y \<le> 1"
    proof cases
      case 1
      then show ?thesis by simp
    next
      case 2
      then show ?thesis using le[of x] m by simp
    qed
  next
    have "m / m \<in> set (map (\<lambda>x. x / m) (take n xs))"
      using mem by (simp add: image_iff) blast
    then show "1 \<in> insert 0 (set (map (\<lambda>x. x / m) (take n xs)))"
      using m by simp
  qed
  finally show ?thesis by (simp add: m_def)
qed

lemma normalizeSpectrogram_twice:
  assumes "n \<le> length xs"
  shows "normalizeSpectrogram (normalizeSpectrogram xs n) n = normalizeSpectrogram xs n"
proof (cases "0 < max_scan xs n")
  case False
  then show ?thesis
    using assms by (simp add: normalizeSpectrogram_eq)
next
  case True
  define ys where "ys = map (\<lambda>x. x / max_scan xs n) (take n xs) @ drop n xs"
  have ys: "normalizeSpectrogram xs n = ys"
    using True assms by (simp add: normalizeSpectrogram_eq ys_def)
  have len: "n \<le> length ys" using assms by (simp add: ys_def)
  have one: "max_scan ys n = 1"
    unfolding ys_def using assms True by (rule max_scan_scaled)
  have "normalizeSpectrogram ys n = map (\<lambda>x. x / 1) (take n ys) @ drop n ys"
    using len one by (simp add: normalizeSpectrogram_eq)
  then show ?thesis
    using ys by simp
qed

lemma max_scan_full:
  assumes "\<forall>x\<in>set xs. 0 \<le> x" "xs \<noteq> []"
  shows "max_scan xs (length xs) = Max (set xs)"
proof -
  have "max_scan xs (length xs) = Max (insert 0 (set xs))"
    by (simp add: max_scan_eq)
  also have "\<dots> = max 0 (Max (set xs))"
    using assms(2) by (subst Max_insert) simp_all
  also have "\<dots> = Max (set xs)"
  proof -
    have "hd xs \<in> set xs" using assms(2) by simp
    then have "0 \<le> hd xs" "hd xs \<le> Max (set xs)" using assms(1) by simp_all
    then show ?thesis by simp
  qed
  finally show ?thesis .
qed

subsection \<open>Filterbank and normalizer: the stated properties\<close>

text \<open>
  C3. Applying a filter never divides by zero, whatever the three bins are: at every bin
  \<open>j\<close> the loop visits (\<open>left \<le> j < right\<close>) the divisor of the branch taken is not zero, so
  neither one filter nor the whole filterbank ever returns \<open>DivisionByZero\<close>. The band
  energy is the rising part plus the falling part, and a part of width zero
  (\<open>center = left\<close>, or \<open>right = center\<close>) contributes 0.
\<close>

theorem mel_filter_never_divides_by_zero:
  "(left \<le> j \<and> j < right \<longrightarrow> mel_weight left center right j \<noteq> Inl DivisionByZero) \<and>
   mel_band mags left center right left 0 \<noteq> Inl DivisionByZero \<and>
   computeMelFilterbank mags \<noteq> Inl DivisionByZero \<and>
   (0 \<le> left \<and> nat (min right (int (FFT_SIZE div 2))) \<le> length mags \<longrightarrow>
      mel_band mags left center right left 0 =
        Inr (rising_part mags left center right + falling_part mags left center right)) \<and>
   (center = left \<longrightarrow> rising_part mags left center right = 0) \<and>
   (right = center \<longrightarrow> falling_part mags left center right = 0)"
proof -
  have "mel_weight left center right j \<noteq> Inl DivisionByZero" if "left \<le> j" "j < right"
    using mel_weight_defined[OF that] by simp
  moreover have "mel_band mags left center right left 0 \<noteq> Inl DivisionByZero"
    by (rule mel_band_no_division_by_zero) simp
  moreover have "computeMelFilterbank mags \<noteq> Inl DivisionByZero"
    unfolding computeMelFilterbank_def by (rule mel_filters_no_division_by_zero)
  moreover have "mel_band mags left center right left 0 =
      Inr (rising_part mags left center right + falling_part mags left center right)"
    if "0 \<le> left" "nat (min right (int (FFT_SIZE div 2))) \<le> length mags"
    using mel_band_sum[OF order_refl that, of center 0] band_sum_split[of mags left center right]
    by (simp add: band_sum_def)
  moreover have "rising_part mags left center right = 0" if "center = left"
    using that by (simp add: rising_part_def)
  moreover have "falling_part mags left center right = 0" if "right = center"
    using that by (simp add: falling_part_def)
  ultimately show ?thesis
    by blast
qed

theorem mel_filter_never_divides_by_zero_witness:
  "mel_weight 3 3 5 3 \<noteq> Inl DivisionByZero \<and>
   mel_band (replicate 256 1) 3 3 5 3 0 \<noteq> Inl DivisionByZero \<and>
   mel_band (replicate 256 1) 3 3 5 3 0 =
     Inr (rising_part (replicate 256 1) 3 3 5 + falling_part (replicate 256 1) 3 3 5) \<and>
   rising_part (replicate 256 1) 3 3 5 = 0 \<and>
   falling_part (replicate 256 1) 3 5 5 = 0"
  using mel_filter_never_divides_by_zero[of 3 3 5 3 "replicate 256 1"]
    mel_filter_never_divides_by_zero[of 3 3 5 5 "replicate 256 1"]
  by (simp add: FFT_SIZE_def)

text \<open>
  C4. For a magnitude spectrum (at least \<open>N / 2\<close> entries, none negative) and every filter
  \<open>i\<close>, the band energy is the sum over the bins \<open>left \<le> j < right\<close>, \<open>j < N / 2\<close>, of
  \<open>magnitude[j]\<close> times the weight \<open>(j - left) / (center - left)\<close> for \<open>j < center\<close> and
  \<open>(right - j) / (right - center)\<close> for \<open>j \<ge> center\<close>; it is not negative; and the bin
  \<open>j = center\<close> is computed by the falling-edge division.
\<close>

theorem band_energy_weighted_sum:
  assumes "FFT_SIZE div 2 \<le> length mags" "\<forall>j<FFT_SIZE div 2. 0 \<le> mags ! j" "i < NUM_MELS"
  shows "\<exists>energies. computeMelFilterbank mags = Inr energies \<and> length energies = NUM_MELS \<and>
    energies ! i =
      (\<Sum>j\<in>{fft_indices ! i..<min (fft_indices ! (i + 2)) (int (FFT_SIZE div 2))}.
         mags ! nat j * tri_weight (fft_indices ! i) (fft_indices ! (i + 1)) (fft_indices ! (i + 2)) j) \<and>
    0 \<le> energies ! i \<and>
    mel_weight (fft_indices ! i) (fft_indices ! (i + 1)) (fft_indices ! (i + 2)) (fft_indices ! (i + 1)) =
      fdiv (of_int (fft_indices ! (i + 2) - fft_indices ! (i + 1)))
        (of_int (fft_indices ! (i + 2) - fft_indices ! (i + 1)))"
proof -
  let ?es = "map (\<lambda>i. band_sum mags (fft_indices ! i) (fft_indices ! (i + 1)) (fft_indices ! (i + 2)))
      [0..<NUM_MELS]"
  have "computeMelFilterbank mags = Inr ?es"
    using assms(1) by (rule computeMelFilterbank_sums)
  moreover have "length ?es = NUM_MELS"
    by simp
  moreover have nth: "?es ! i = band_sum mags (fft_indices ! i) (fft_indices ! (i + 1)) (fft_indices ! (i + 2))"
    using assms(3) by simp
  moreover have "0 \<le> ?es ! i"
    unfolding nth using assms(2,3) by (intro band_sum_nonneg fft_indices_nonneg) simp_all
  moreover have "mel_weight (fft_indices ! i) (fft_indices ! (i + 1)) (fft_indices ! (i + 2)) (fft_indices ! (i + 1)) =
      fdiv (of_int (fft_indices ! (i + 2) - fft_indices ! (i + 1)))
        (of_int (fft_indices ! (i + 2) - fft_indices ! (i + 1)))"
    by (simp add: mel_weight_def)
  ultimately show ?thesis
    unfolding band_sum_def by blast
qed

theorem band_energy_weighted_sum_witness:
  "\<exists>energies. computeMelFilterbank (replicate 256 1) = Inr energies \<and> length energies = NUM_MELS \<and>
    energies ! 0 =
      (\<Sum>j\<in>{fft_indices ! 0..<min (fft_indices ! (0 + 2)) (int (FFT_SIZE div 2))}.
         replicate 256 1 ! nat j * tri_weight (fft_indices ! 0) (fft_indices ! (0 + 1)) (fft_indices ! (0 + 2)) j) \<and>
    0 \<le> energies ! 0 \<and>
    mel_weight (fft_indices ! 0) (fft_indices ! (0 + 1)) (fft_indices ! (0 + 2)) (fft_indices ! (0 + 1)) =
      fdiv (of_int (fft_indices ! (0 + 2) - fft_indices ! (0 + 1)))
        (of_int (fft_indices ! (0 + 2) - fft_indices ! (0 + 1)))"
  by (rule band_energy_weighted_sum) (simp_all add: FFT_SIZE_def NUM_MELS_def)

text \<open>
  C5. On a matrix of non-negative values \<open>normalizeSpectrogram\<close> finds the maximum. When
  the maximum is positive every element is divided by it, every element then lies in
  \<open>[0, 1]\<close> and the maximum is 1; when the maximum is 0 the matrix is unchanged.
\<close>

theorem normalize_divides_by_maximum:
  assumes "\<forall>x\<in>set xs. 0 \<le> x" "xs \<noteq> []"
  shows "max_scan xs (length xs) = Max (set xs) \<and>
    (0 < Max (set xs) \<longrightarrow>
       normalizeSpectrogram xs (length xs) = map (\<lambda>x. x / Max (set xs)) xs \<and>
       (\<forall>y\<in>set (normalizeSpectrogram xs (length xs)). 0 \<le> y \<and> y \<le> 1) \<and>
       Max (set (normalizeSpectrogram xs (length xs))) = 1) \<and>
    (Max (set xs) = 0 \<longrightarrow> normalizeSpectrogram xs (length xs) = xs)"
proof -
  define m where "m = Max (set xs)"
  have ms: "max_scan xs (length xs) = m"
    unfolding m_def using assms by (rule max_scan_full)
  have le: "x \<le> m" if "x \<in> set xs" for x
    using that by (simp add: m_def)
  have mem: "m \<in> set xs"
    unfolding m_def using assms(2) by (intro Max_in) simp_all
  have pos: ?thesis if "0 < m"
  proof -
    have eq: "normalizeSpectrogram xs (length xs) = map (\<lambda>x. x / m) xs"
      using that ms by (simp add: normalizeSpectrogram_eq)
    have rng: "0 \<le> y \<and> y \<le> 1" if y: "y \<in> set (map (\<lambda>x. x / m) xs)" for y
    proof -
      obtain x where "x \<in> set xs" "y = x / m" using y by auto
      then show ?thesis using assms(1) le[of x] \<open>0 < m\<close> by simp
    qed
    have "Max (set (map (\<lambda>x. x / m) xs)) = 1"
    proof (rule Max_eqI)
      show "finite (set (map (\<lambda>x. x / m) xs))" by simp
      show "y \<le> 1" if "y \<in> set (map (\<lambda>x. x / m) xs)" for y
        using rng[OF that] by simp
      have "m / m \<in> set (map (\<lambda>x. x / m) xs)"
        using mem by (simp add: image_iff) blast
      then show "1 \<in> set (map (\<lambda>x. x / m) xs)"
        using \<open>0 < m\<close> by simp
    qed
    then show ?thesis
      using eq rng ms that by (simp add: m_def[symmetric])
  qed
  have zero: ?thesis if "\<not> 0 < m"
    using that ms by (simp add: normalizeSpectrogram_eq m_def[symmetric])
  show ?thesis
    using pos zero by blast
qed

theorem normalize_divides_by_maximum_witness:
  "max_scan [1, 4, 2] (length [1, 4, 2 :: real]) = Max (set [1, 4, 2]) \<and>
   normalizeSpectrogram [1, 4, 2] (length [1, 4, 2 :: real]) = map (\<lambda>x. x / Max (set [1, 4, 2])) [1, 4, 2] \<and>
   Max (set (normalizeSpectrogram [1, 4, 2] (length [1, 4, 2 :: real]))) = 1 \<and>
   normalizeSpectrogram [0, 0] (length [0, 0 :: real]) = [0, 0]"
  using normalize_divides_by_maximum[of "[1, 4, 2]"] normalize_divides_by_maximum[of "[0, 0]"]
  by simp

text \<open>
  C6. \<open>normalizeSpectrogram\<close> is idempotent: a second application changes nothing.
\<close>

theorem normalize_idempotent:
  assumes "sz \<le> length spectrogram"
  shows "normalizeSpectrogram (normalizeSpectrogram spectrogram sz) sz = normalizeSpectrogram spectrogram sz"
  using assms by (rule normalizeSpectrogram_twice)

theorem normalize_idempotent_witness:
  "normalizeSpectrogram (normalizeSpectrogram [1, 4, 2] 3) 3 = normalizeSpectrogram [1, 4, 2] 3"
  by (rule normalize_idempotent) simp

text \<open>
  C9. With the constants of audio_processing.h the \<open>M + 2\<close> bin indices are
  non-decreasing, so every filter has \<open>left \<le> center \<le> right\<close>.
\<close>

theorem fft_indices_monotone:
  "length fft_indices = NUM_MELS + 2 \<and> sorted fft_indices \<and>
   (\<forall>i<NUM_MELS. fft_indices ! i \<le> fft_indices ! (i + 1) \<and>
      fft_indices ! (i + 1) \<le> fft_indices ! (i + 2))"
proof -
  have "fft_indices ! i \<le> fft_indices ! (i + 1) \<and> fft_indices ! (i + 1) \<le> fft_indices ! (i + 2)"
    if "i < NUM_MELS" for i
    using fft_indices_step[of i] fft_indices_step[of "i + 1"] that by simp
  then show ?thesis
    using length_fft_indices fft_indices_sorted by blast
qed

theorem fft_indices_monotone_witness:
  "fft_indices ! 0 \<le> fft_indices ! (0 + 1) \<and> fft_indices ! (0 + 1) \<le> fft_indices ! (0 + 2)"
proof -
  have "0 < NUM_MELS" by (simp add: NUM_MELS_def)
  then show ?thesis
    using fft_indices_monotone by blast
qed

subsection \<open>Frames and the spectrogram in memory\<close>

lemma length_load_frame: "length (load_frame h audio frame) = FFT_SIZE"
  by (simp add: load_frame_def)

lemma load_frame_nth:
  assumes "i < FFT_SIZE"
  shows "load_frame h audio frame ! i =
    (if frame * HOP_LENGTH + i < BUFFER_SIZE then h (audio + (frame * HOP_LENGTH + i)) else 0)"
  using assms by (simp add: load_frame_def Let_def)

lemma frame_index_in_buffer:
  assumes "frame < NUM_FRAMES" "i < FFT_SIZE"
  shows "frame * HOP_LENGTH + i < BUFFER_SIZE"
proof -
  have "frame * HOP_LENGTH \<le> (NUM_FRAMES - 1) * HOP_LENGTH"
    using assms(1) by (intro mult_le_mono1) simp
  then show ?thesis
    using assms by (simp add: BUFFER_SIZE_def NUM_FRAMES_def HOP_LENGTH_def FFT_SIZE_def)
qed

lemma length_fold_update: "length (fold (\<lambda>i b. b[i := g i b]) is b) = length b"
  by (induction "is" arbitrary: b) simp_all

lemma length_applyHannWindow: "length (applyHannWindow buffer sz) = length buffer"
  unfolding applyHannWindow_def by (rule length_fold_update)

lemma computeFFT_nonneg:
  assumes "sz div 2 \<le> length buffer" "k < sz div 2"
  shows "0 \<le> computeFFT buffer sz ! k"
  using computeFFT_nth[OF assms] by simp

lemma frame_energies_defined:
  "\<exists>energies. frame_energies h audio frame = Inr energies \<and> length energies = NUM_MELS \<and>
     (\<forall>b<NUM_MELS. 0 \<le> energies ! b)"
proof -
  define mags where
    "mags = computeFFT (applyHannWindow (load_frame h audio frame) FFT_SIZE) FFT_SIZE"
  have len: "length mags = FFT_SIZE"
    unfolding mags_def
    by (subst computeFFT_length) (simp_all add: length_applyHannWindow length_load_frame)
  have nonneg: "\<forall>j<FFT_SIZE div 2. 0 \<le> mags ! j"
    unfolding mags_def
    by (auto intro!: computeFFT_nonneg simp: length_applyHannWindow length_load_frame)
  let ?es = "map (\<lambda>i. band_sum mags (fft_indices ! i) (fft_indices ! (i + 1)) (fft_indices ! (i + 2)))
      [0..<NUM_MELS]"
  have "frame_energies h audio frame = Inr ?es"
    unfolding frame_energies_def mags_def[symmetric]
    by (rule computeMelFilterbank_sums) (simp add: len)
  moreover have "0 \<le> ?es ! b" if "b < NUM_MELS" for b
    using that nonneg by (simp add: band_sum_nonneg fft_indices_nonneg)
  ultimately show ?thesis
    by (intro exI[of _ ?es]) simp
qed

lemma store_energies_other:
  assumes "\<forall>mel<NUM_MELS. addr \<noteq> spectrogram + (mel * NUM_FRAMES + frame)"
  shows "store_energies h spectrogram frame mel_energies addr = h addr"
proof -
  have "fold (\<lambda>mel h'. h'(spectrogram + (mel * NUM_FRAMES + frame) := mel_energies ! mel)) [0..<n] h addr
      = h addr" if "n \<le> NUM_MELS" for n
    using that assms by (induction n) simp_all
  then show ?thesis
    by (simp add: store_energies_def)
qed

lemma store_energies_cell:
  assumes "b < NUM_MELS"
  shows "store_energies h spectrogram frame mel_energies (spectrogram + (b * NUM_FRAMES + frame))
    = mel_energies ! b"
proof -
  have pos: "0 < NUM_FRAMES" by (simp add: NUM_FRAMES_def)
  have "fold (\<lambda>mel h'. h'(spectrogram + (mel * NUM_FRAMES + frame) := mel_energies ! mel)) [0..<n] h
      (spectrogram + (b * NUM_FRAMES + frame)) = mel_energies ! b" if "b < n" for n
    using that pos by (induction n) (auto simp: less_Suc_eq)
  then show ?thesis
    using assms by (simp add: store_energies_def)
qed

lemma cell_injective:
  assumes "f < NUM_FRAMES" "f' < NUM_FRAMES" "b * NUM_FRAMES + f = b' * NUM_FRAMES + f'"
  shows "f = f' \<and> b = b'"
proof -
  have "(b * NUM_FRAMES + f) mod NUM_FRAMES = f" "(b' * NUM_FRAMES + f') mod NUM_FRAMES = f'"
    using assms(1,2) by simp_all
  then have "f = f'" using assms(3) by simp
  moreover have "(b * NUM_FRAMES + f) div NUM_FRAMES = b" "(b' * NUM_FRAMES + f') div NUM_FRAMES = b'"
    using assms(1,2) by simp_all
  then have "b = b'" using assms(3) by simp
  ultimately show ?thesis by simp
qed

lemma cell_in_spectrogram:
  assumes "b < NUM_MELS" "f < NUM_FRAMES"
  shows "b * NUM_FRAMES + f < NUM_MELS * NUM_FRAMES"
proof -
  have "b * NUM_FRAMES + f < b * NUM_FRAMES + NUM_FRAMES"
    using assms(2) by simp
  also have "\<dots> = Suc b * NUM_FRAMES" by simp
  also have "\<dots> \<le> NUM_MELS * NUM_FRAMES"
    using assms(1) by (intro mult_le_mono1) simp
  finally show ?thesis .
qed

lemma frames_loop_defined: "\<exists>h'. frames_loop audio spectrogram frames h = Inr h'"
proof (induction frames arbitrary: h)
  case Nil
  then show ?case by simp
next
  case (Cons frame frames)
  obtain es where "frame_energies h audio frame = Inr es"
    using frame_energies_defined by blast
  then show ?case
    using Cons by simp
qed

lemma frames_loop_other:
  assumes "frames_loop audio spectrogram frames h = Inr h'"
    and "\<forall>mel<NUM_MELS. \<forall>frame\<in>set frames. addr \<noteq> spectrogram + (mel * NUM_FRAMES + frame)"
  shows "h' addr = h addr"
  using assms
proof (induction frames arbitrary: h)
  case Nil
  then show ?case by simp
next
  case (Cons frame frames)
  obtain es where es: "frame_energies h audio frame = Inr es"
    using frame_energies_defined by blast
  then have "frames_loop audio spectrogram frames (store_energies h spectrogram frame es) = Inr h'"
    using Cons.prems(1) by simp
  then have "h' addr = store_energies h spectrogram frame es addr"
    using Cons.IH Cons.prems(2) by simp
  also have "\<dots> = h addr"
    using Cons.prems(2) by (intro store_energies_other) simp
  finally show ?case .
qed

lemma frames_loop_append:
  "frames_loop audio spectrogram (xs @ ys) h =
    (case frames_loop audio spectrogram xs h of
       Inl e \<Rightarrow> Inl e
     | Inr h' \<Rightarrow> frames_loop audio spectrogram ys h')"
  by (induction xs arbitrary: h) (auto split: sum.splits)

lemma frames_loop_outside:
  assumes "frames_loop audio spectrogram [0..<n] h = Inr h'" "n \<le> NUM_FRAMES"
    and "addr < spectrogram \<or> spectrogram + NUM_MELS * NUM_FRAMES \<le> addr"
  shows "h' addr = h addr"
proof (rule frames_loop_other[OF assms(1)], intro allI impI ballI)
  fix mel frame assume "mel < NUM_MELS" "frame \<in> set [0..<n]"
  then have "mel * NUM_FRAMES + frame < NUM_MELS * NUM_FRAMES"
    using assms(2) by (intro cell_in_spectrogram) simp_all
  then show "addr \<noteq> spectrogram + (mel * NUM_FRAMES + frame)"
    using assms(3) by linarith
qed

lemma load_frame_cong:
  assumes "\<forall>i<BUFFER_SIZE. h1 (audio + i) = h2 (audio + i)"
  shows "load_frame h1 audio frame = load_frame h2 audio frame"
  using assms by (simp add: load_frame_def Let_def)

lemma frames_upto_split:
  assumes "f < n"
  shows "[0..<n] = [0..<f] @ f # [Suc f..<n]"
proof -
  have "[0..<n] = [0..<f] @ [f..<n]"
    using assms upt_add_eq_append[of 0 f "n - f"] by simp
  then show ?thesis
    using assms by (simp add: upt_conv_Cons)
qed

lemma frames_loop_cell:
  assumes "b < NUM_MELS" "f < NUM_FRAMES"
  shows "\<exists>h_f energies raw.
    frames_loop audio spectrogram [0..<f] h = Inr h_f \<and>
    frame_energies h_f audio f = Inr energies \<and>
    0 \<le> energies ! b \<and>
    frames_loop audio spectrogram [0..<NUM_FRAMES] h = Inr raw \<and>
    raw (spectrogram + (b * NUM_FRAMES + f)) = energies ! b"
proof -
  obtain h_f where hf: "frames_loop audio spectrogram [0..<f] h = Inr h_f"
    using frames_loop_defined by blast
  obtain energies where en: "frame_energies h_f audio f = Inr energies" "0 \<le> energies ! b"
    using frame_energies_defined[of h_f audio f] assms(1) by blast
  define h1 where "h1 = store_energies h_f spectrogram f energies"
  obtain raw where raw: "frames_loop audio spectrogram [Suc f..<NUM_FRAMES] h1 = Inr raw"
    using frames_loop_defined by blast
  have "frames_loop audio spectrogram [0..<NUM_FRAMES] h =
      frames_loop audio spectrogram (f # [Suc f..<NUM_FRAMES]) h_f"
    using hf by (simp add: frames_upto_split[OF assms(2)] frames_loop_append)
  then have all: "frames_loop audio spectrogram [0..<NUM_FRAMES] h = Inr raw"
    using en raw by (simp add: h1_def)
  have "raw (spectrogram + (b * NUM_FRAMES + f)) = h1 (spectrogram + (b * NUM_FRAMES + f))"
  proof (rule frames_loop_other[OF raw], intro allI impI ballI)
    fix mel frame assume "mel < NUM_MELS" "frame \<in> set [Suc f..<NUM_FRAMES]"
    then have "frame < NUM_FRAMES" "frame \<noteq> f" by simp_all
    then have "b * NUM_FRAMES + f \<noteq> mel * NUM_FRAMES + frame"
      using cell_injective[OF assms(2), of frame b mel] by blast
    then show "spectrogram + (b * NUM_FRAMES + f) \<noteq> spectrogram + (mel * NUM_FRAMES + frame)"
      by simp
  qed
  also have "\<dots> = energies ! b"
    unfolding h1_def using assms(1) by (rule store_energies_cell)
  finally show ?thesis
    using hf en all by blast
qed

lemma normalize_at_cell:
  assumes "k < sz"
  shows "normalize_at h spectrogram sz (spectrogram + k) =
    normalizeSpectrogram (load_array h spectrogram sz) sz ! k"
  using assms by (simp add: normalize_at_def)

lemma load_array_nth:
  assumes "k < sz"
  shows "load_array h p sz ! k = h (p + k)"
  using assms by (simp add: load_array_def)

lemma normalizeSpectrogram_nth:
  assumes "k < sz" "sz \<le> length xs"
  shows "normalizeSpectrogram xs sz ! k =
    (if 0 < max_scan xs sz then xs ! k / max_scan xs sz else xs ! k)"
  using assms by (simp add: normalizeSpectrogram_eq nth_append)

lemma normalizeSpectrogram_sign:
  assumes "k < sz" "sz \<le> length xs" "0 \<le> xs ! k"
  shows "0 \<le> normalizeSpectrogram xs sz ! k"
proof (cases "0 < max_scan xs sz")
  case True
  then have "normalizeSpectrogram xs sz ! k = xs ! k / max_scan xs sz"
    using assms(1,2) by (simp add: normalizeSpectrogram_eq nth_append)
  then show ?thesis
    using True assms(3) by simp
next
  case False
  then show ?thesis
    using assms by (simp add: normalizeSpectrogram_eq)
qed

text \<open>
  C7. The energy that frame \<open>f\<close> computes for mel band \<open>b\<close> is stored at index
  \<open>b * F + f\<close> of the spectrogram, no later frame overwrites it, and the final value at
  that index is this energy divided by the maximum of the \<open>M * F\<close> values (or the energy
  itself when the maximum is 0). \<open>h_f\<close> is the memory when frame \<open>f\<close> starts; when the two
  arrays do not overlap, the energies are those of the caller's audio.
\<close>

theorem spectrogram_layout:
  assumes "b < NUM_MELS" "f < NUM_FRAMES"
  shows "\<exists>h_f energies raw.
    frames_loop audio spectrogram [0..<f] h = Inr h_f \<and>
    frame_energies h_f audio f = Inr energies \<and>
    frames_loop audio spectrogram [0..<NUM_FRAMES] h = Inr raw \<and>
    raw (spectrogram + (b * NUM_FRAMES + f)) = energies ! b \<and>
    load_array raw spectrogram (NUM_MELS * NUM_FRAMES) ! (b * NUM_FRAMES + f) = energies ! b \<and>
    audioToMelSpectrogram h audio spectrogram =
      Inr (normalize_at raw spectrogram (NUM_MELS * NUM_FRAMES)) \<and>
    normalize_at raw spectrogram (NUM_MELS * NUM_FRAMES) (spectrogram + (b * NUM_FRAMES + f)) =
      normalizeSpectrogram (load_array raw spectrogram (NUM_MELS * NUM_FRAMES))
        (NUM_MELS * NUM_FRAMES) ! (b * NUM_FRAMES + f) \<and>
    normalize_at raw spectrogram (NUM_MELS * NUM_FRAMES) (spectrogram + (b * NUM_FRAMES + f)) =
      (if 0 < max_scan (load_array raw spectrogram (NUM_MELS * NUM_FRAMES)) (NUM_MELS * NUM_FRAMES)
       then energies ! b / max_scan (load_array raw spectrogram (NUM_MELS * NUM_FRAMES)) (NUM_MELS * NUM_FRAMES)
       else energies ! b) \<and>
    (audio + BUFFER_SIZE \<le> spectrogram \<or> spectrogram + NUM_MELS * NUM_FRAMES \<le> audio \<longrightarrow>
       frame_energies h audio f = Inr energies)"
proof -
  obtain h_f energies raw where
    hf: "frames_loop audio spectrogram [0..<f] h = Inr h_f"
    and en: "frame_energies h_f audio f = Inr energies"
    and raw: "frames_loop audio spectrogram [0..<NUM_FRAMES] h = Inr raw"
    and cell: "raw (spectrogram + (b * NUM_FRAMES + f)) = energies ! b"
    using frames_loop_cell[OF assms] by blast
  have k: "b * NUM_FRAMES + f < NUM_MELS * NUM_FRAMES"
    using assms by (rule cell_in_spectrogram)
  have flat: "load_array raw spectrogram (NUM_MELS * NUM_FRAMES) ! (b * NUM_FRAMES + f) = energies ! b"
    using load_array_nth[OF k] cell by simp
  have out: "audioToMelSpectrogram h audio spectrogram =
      Inr (normalize_at raw spectrogram (NUM_MELS * NUM_FRAMES))"
    using raw by (simp add: audioToMelSpectrogram_def)
  have apart: "frame_energies h audio f = Inr energies"
    if "audio + BUFFER_SIZE \<le> spectrogram \<or> spectrogram + NUM_MELS * NUM_FRAMES \<le> audio"
  proof -
    have "h_f (audio + i) = h (audio + i)" if "i < BUFFER_SIZE" for i
      using frames_loop_outside[OF hf, of "audio + i"] assms(2) that
        \<open>audio + BUFFER_SIZE \<le> spectrogram \<or> spectrogram + NUM_MELS * NUM_FRAMES \<le> audio\<close>
      by linarith
    then have "load_frame h_f audio f = load_frame h audio f"
      by (intro load_frame_cong) simp
    then show ?thesis
      using en by (simp add: frame_energies_def)
  qed
  have final: "normalize_at raw spectrogram (NUM_MELS * NUM_FRAMES) (spectrogram + (b * NUM_FRAMES + f)) =
      normalizeSpectrogram (load_array raw spectrogram (NUM_MELS * NUM_FRAMES))
        (NUM_MELS * NUM_FRAMES) ! (b * NUM_FRAMES + f)"
    using k by (rule normalize_at_cell)
  have scaled: "normalize_at raw spectrogram (NUM_MELS * NUM_FRAMES) (spectrogram + (b * NUM_FRAMES + f)) =
      (if 0 < max_scan (load_array raw spectrogram (NUM_MELS * NUM_FRAMES)) (NUM_MELS * NUM_FRAMES)
       then energies ! b / max_scan (load_array raw spectrogram (NUM_MELS * NUM_FRAMES)) (NUM_MELS * NUM_FRAMES)
       else energies ! b)"
    unfolding final using normalizeSpectrogram_nth[OF k, of "load_array raw spectrogram (NUM_MELS * NUM_FRAMES)"] flat
    by (simp add: load_array_def)
  show ?thesis
    using hf en raw cell flat out final scaled apart by blast
qed

theorem spectrogram_layout_witness:
  "\<exists>h_f energies raw.
    frames_loop 0 10000 [0..<2] all_minus_one = Inr h_f \<and>
    frame_energies h_f 0 2 = Inr energies \<and>
    frames_loop 0 10000 [0..<NUM_FRAMES] all_minus_one = Inr raw \<and>
    raw (10000 + (3 * NUM_FRAMES + 2)) = energies ! 3 \<and>
    load_array raw 10000 (NUM_MELS * NUM_FRAMES) ! (3 * NUM_FRAMES + 2) = energies ! 3 \<and>
    audioToMelSpectrogram all_minus_one 0 10000 =
      Inr (normalize_at raw 10000 (NUM_MELS * NUM_FRAMES)) \<and>
    normalize_at raw 10000 (NUM_MELS * NUM_FRAMES) (10000 + (3 * NUM_FRAMES + 2)) =
      normalizeSpectrogram (load_array raw 10000 (NUM_MELS * NUM_FRAMES))
        (NUM_MELS * NUM_FRAMES) ! (3 * NUM_FRAMES + 2) \<and>
    normalize_at raw 10000 (NUM_MELS * NUM_FRAMES) (10000 + (3 * NUM_FRAMES + 2)) =
      (if 0 < max_scan (load_array raw 10000 (NUM_MELS * NUM_FRAMES)) (NUM_MELS * NUM_FRAMES)
       then energies ! 3 / max_scan (load_array raw 10000 (NUM_MELS * NUM_FRAMES)) (NUM_MELS * NUM_FRAMES)
       else energies ! 3) \<and>
    frame_energies all_minus_one 0 2 = Inr energies"
proof -
  have b: "3 < NUM_MELS" and f: "2 < NUM_FRAMES"
    by (simp_all add: NUM_MELS_def NUM_FRAMES_def)
  have apart: "0 + BUFFER_SIZE \<le> (10000::nat) \<or> 10000 + NUM_MELS * NUM_FRAMES \<le> (0::nat)"
    by (simp add: BUFFER_SIZE_def NUM_FRAMES_def HOP_LENGTH_def FFT_SIZE_def)
  show ?thesis
    using spectrogram_layout[OF b f, of 0 10000 all_minus_one] apart by blast
qed

text \<open>
  C8. Sample \<open>i\<close> of frame \<open>f\<close> is \<open>audio[f * H + i]\<close> when \<open>f * H + i < BUFFER_SIZE\<close> and 0
  otherwise; \<open>BUFFER_SIZE = F * H + N\<close>, and for \<open>f < F\<close> and \<open>i < N\<close> the index is below
  \<open>BUFFER_SIZE\<close>, so the sample is read from the buffer and never zero-filled.
\<close>

theorem frame_extraction_in_bounds:
  assumes "i < FFT_SIZE"
  shows "length (load_frame h audio f) = FFT_SIZE \<and>
    load_frame h audio f ! i =
      (if f * HOP_LENGTH + i < BUFFER_SIZE then h (audio + (f * HOP_LENGTH + i)) else 0) \<and>
    BUFFER_SIZE = NUM_FRAMES * HOP_LENGTH + FFT_SIZE \<and>
    (f < NUM_FRAMES \<longrightarrow>
       f * HOP_LENGTH + i < BUFFER_SIZE \<and> load_frame h audio f ! i = h (audio + (f * HOP_LENGTH + i)))"
  using assms load_frame_nth[OF assms, of h audio f] frame_index_in_buffer[of f i]
  by (simp add: length_load_frame BUFFER_SIZE_def)

theorem frame_extraction_in_bounds_witness:
  "length (load_frame all_minus_one 0 48) = FFT_SIZE \<and>
   48 * HOP_LENGTH + 511 < BUFFER_SIZE \<and>
   load_frame all_minus_one 0 48 ! 511 = all_minus_one (0 + (48 * HOP_LENGTH + 511)) \<and>
   load_frame all_minus_one 0 60 ! 0 = 0"
  using frame_extraction_in_bounds[of 511 all_minus_one 0 48]
    frame_extraction_in_bounds[of 0 all_minus_one 0 60]
  by (simp add: FFT_SIZE_def NUM_FRAMES_def HOP_LENGTH_def BUFFER_SIZE_def)

text \<open>
  C10, as amended. \<open>audioToMelSpectrogram\<close> changes no memory outside the \<open>M * F\<close> floats of
  the spectrogram array; when that array does not overlap the audio buffer, every element
  of the audio buffer keeps its value.
\<close>

theorem audio_unchanged_when_apart:
  "\<exists>h'. audioToMelSpectrogram h audio spectrogram = Inr h' \<and>
     (\<forall>addr. addr < spectrogram \<or> spectrogram + NUM_MELS * NUM_FRAMES \<le> addr \<longrightarrow> h' addr = h addr) \<and>
     (audio + BUFFER_SIZE \<le> spectrogram \<or> spectrogram + NUM_MELS * NUM_FRAMES \<le> audio \<longrightarrow>
        (\<forall>i<BUFFER_SIZE. h' (audio + i) = h (audio + i)))"
proof -
  obtain raw where raw: "frames_loop audio spectrogram [0..<NUM_FRAMES] h = Inr raw"
    using frames_loop_defined by blast
  define h' where "h' = normalize_at raw spectrogram (NUM_MELS * NUM_FRAMES)"
  have out: "audioToMelSpectrogram h audio spectrogram = Inr h'"
    using raw by (simp add: audioToMelSpectrogram_def h'_def)
  have frame: "h' addr = h addr"
    if "addr < spectrogram \<or> spectrogram + NUM_MELS * NUM_FRAMES \<le> addr" for addr
  proof -
    have "h' addr = raw addr"
      using that by (auto simp: h'_def normalize_at_def)
    also have "\<dots> = h addr"
      using frames_loop_outside[OF raw order_refl that] .
    finally show ?thesis .
  qed
  have "h' (audio + i) = h (audio + i)"
    if "audio + BUFFER_SIZE \<le> spectrogram \<or> spectrogram + NUM_MELS * NUM_FRAMES \<le> audio"
      "i < BUFFER_SIZE" for i
    using that by (intro frame) linarith
  then show ?thesis
    using out frame by blast
qed

theorem audio_unchanged_when_apart_witness:
  "\<exists>h'. audioToMelSpectrogram all_minus_one 0 10000 = Inr h' \<and> h' 9999 = all_minus_one 9999 \<and>
     h' (0 + 8351) = all_minus_one (0 + 8351)"
proof -
  have apart: "0 + BUFFER_SIZE \<le> (10000::nat) \<or> 10000 + NUM_MELS * NUM_FRAMES \<le> (0::nat)"
    and last: "8351 < BUFFER_SIZE"
    by (simp_all add: BUFFER_SIZE_def NUM_FRAMES_def HOP_LENGTH_def FFT_SIZE_def)
  have "(9999::nat) < 10000 \<or> 10000 + NUM_MELS * NUM_FRAMES \<le> 9999"
    by simp
  then show ?thesis
    using audio_unchanged_when_apart[of all_minus_one 0 10000] apart last by blast
qed

text \<open>
  C10, as stated, fails when the two pointers are equal: with every sample \<open>-1.0\<close>, the call
  \<open>audioToMelSpectrogram(p, p)\<close> leaves a value that is not negative in \<open>audio[0]\<close>.
\<close>

theorem audio_overwritten_when_aliased:
  "\<not> isl (audioToMelSpectrogram all_minus_one 0 0) \<and>
   projr (audioToMelSpectrogram all_minus_one 0 0) 0 \<noteq> all_minus_one 0"
proof -
  have b: "0 < NUM_MELS" and f: "0 < NUM_FRAMES"
    by (simp_all add: NUM_MELS_def NUM_FRAMES_def)
  obtain energies raw where
    raw: "frames_loop 0 0 [0..<NUM_FRAMES] all_minus_one = Inr raw"
    and cell: "raw (0 + (0 * NUM_FRAMES + 0)) = energies ! 0" and nonneg: "0 \<le> energies ! 0"
    using frames_loop_cell[OF b f, of 0 0 all_minus_one] by blast
  define n where "n = NUM_MELS * NUM_FRAMES"
  have n: "0 < n" by (simp add: n_def NUM_MELS_def NUM_FRAMES_def)
  have out: "audioToMelSpectrogram all_minus_one 0 0 = Inr (normalize_at raw 0 n)"
    using raw by (simp add: audioToMelSpectrogram_def n_def)
  have "normalize_at raw 0 n (0 + 0) = normalizeSpectrogram (load_array raw 0 n) n ! 0"
    using n by (rule normalize_at_cell)
  moreover have "0 \<le> normalizeSpectrogram (load_array raw 0 n) n ! 0"
  proof (rule normalizeSpectrogram_sign[OF n])
    show "n \<le> length (load_array raw 0 n)" by (simp add: load_array_def)
    show "0 \<le> load_array raw 0 n ! 0"
      using load_array_nth[OF n, of raw 0] cell nonneg by simp
  qed
  ultimately have "0 \<le> normalize_at raw 0 n 0" by simp
  then show ?thesis
    using out by (simp add: all_minus_one_def)
qed

end
